theory Spec2Isabelle
  imports Main "HOL-Library.Mapping" "HOL-Library.AList_Mapping"
begin

section \<open>Go strings and the library functions the checker calls\<close>

text \<open>
  A Go string is a sequence of bytes, so it is \<open>string\<close>, a list of 8-bit \<open>char\<close>, and a
  rune is an integer. The functions of the packages \<open>unicode/utf8\<close>, \<open>unicode\<close> and
  \<open>strings\<close> that the checker calls are written out below as the library of Go 1.21
  computes them, for every sequence of bytes, valid UTF-8 or not. The one thing they take
  from outside is the case table of the Go release in use, \<open>unicode.CaseRanges\<close>: it is
  the parameter \<open>uc\<close>, which gives the upper case of a code point above ASCII (the code
  point itself when it has none).
\<close>

subsection \<open>Package \<open>unicode/utf8\<close>\<close>

definition RuneError :: int where
  "RuneError = 0xFFFD"

definition DecodeRuneInString :: "string \<Rightarrow> int \<times> nat" where
  \<comment> \<open>the first rune of \<open>s\<close> and its width in bytes; \<open>(RuneError, 1)\<close> for a byte that
      starts no valid encoding, \<open>(RuneError, 0)\<close> for the empty string\<close>
  "DecodeRuneInString s =
     (let b = map of_char (take 4 s) :: int list; n = length s in
      if n < 1 then (RuneError, 0)
      else if b ! 0 < 0x80 then (b ! 0, 1)
      else if b ! 0 < 0xC2 \<or> 0xF4 < b ! 0 then (RuneError, 1)
      else
        (let sz = (if b ! 0 < 0xE0 then 2 else if b ! 0 < 0xF0 then 3 else 4);
             lo = (if b ! 0 = 0xE0 then 0xA0 else if b ! 0 = 0xF0 then 0x90 else 0x80);
             hi = (if b ! 0 = 0xED then 0x9F else if b ! 0 = 0xF4 then 0x8F else 0xBF)
         in if n < sz then (RuneError, 1)
            else if b ! 1 < lo \<or> hi < b ! 1 then (RuneError, 1)
            else if sz \<le> 2 then (b ! 0 mod 0x20 * 0x40 + b ! 1 mod 0x40, 2)
            else if b ! 2 < 0x80 \<or> 0xBF < b ! 2 then (RuneError, 1)
            else if sz \<le> 3 then
              (b ! 0 mod 0x10 * 0x1000 + b ! 1 mod 0x40 * 0x40 + b ! 2 mod 0x40, 3)
            else if b ! 3 < 0x80 \<or> 0xBF < b ! 3 then (RuneError, 1)
            else
              (b ! 0 mod 8 * 0x40000 + b ! 1 mod 0x40 * 0x1000 + b ! 2 mod 0x40 * 0x40 +
               b ! 3 mod 0x40, 4)))"

definition RuneStart :: "char \<Rightarrow> bool" where
  \<comment> \<open>\<open>b&0xC0 != 0x80\<close>\<close>
  "RuneStart c = ((of_char c :: int) div 0x40 \<noteq> 2)"

definition DecodeLastRuneInString :: "string \<Rightarrow> int \<times> nat" where
  \<comment> \<open>the last rune of \<open>s\<close> and its width: step back to the nearest byte that can start a
      rune, four bytes at most, and decode from there\<close>
  "DecodeLastRuneInString s =
     (let n = length s in
      if n = 0 then (RuneError, 0)
      else if of_char (s ! (n - 1)) < (0x80 :: int) then (of_char (s ! (n - 1)), 1)
      else
        (let lim = n - 4;
             start = (case find (\<lambda>i. RuneStart (s ! i)) (rev [lim..<n - 1]) of
                        Some i \<Rightarrow> i
                      | None \<Rightarrow> lim - 1);
             (r, width) = DecodeRuneInString (drop start s)
         in if start + width \<noteq> n then (RuneError, 1) else (r, width)))"

definition AppendRune :: "int \<Rightarrow> string" where
  \<comment> \<open>the UTF-8 encoding of a rune; a surrogate or a value above \<open>U+10FFFF\<close> is written as
      \<open>RuneError\<close>\<close>
  "AppendRune r =
     (if 0 \<le> r \<and> r \<le> 0x7F then [char_of r]
      else if 0 \<le> r \<and> r \<le> 0x7FF then [char_of (0xC0 + r div 0x40), char_of (0x80 + r mod 0x40)]
      else
        (let r' = (if r < 0 \<or> 0x10FFFF < r \<or> (0xD800 \<le> r \<and> r \<le> 0xDFFF) then RuneError else r)
         in if r' \<le> 0xFFFF then
              [char_of (0xE0 + r' div 0x1000), char_of (0x80 + r' div 0x40 mod 0x40),
               char_of (0x80 + r' mod 0x40)]
            else
              [char_of (0xF0 + r' div 0x40000), char_of (0x80 + r' div 0x1000 mod 0x40),
               char_of (0x80 + r' div 0x40 mod 0x40), char_of (0x80 + r' mod 0x40)]))"

text \<open>The runes of a string, as \<open>for _, c := range s\<close> meets them.\<close>

function runes :: "string \<Rightarrow> int list" where
  "runes s =
     (if s = [] then []
      else (let (r, width) = DecodeRuneInString s in r # runes (drop width s)))"
  by pat_completeness auto
termination
proof (relation "measure length")
  show "wf (measure length)" by simp
next
  fix s :: string and x :: "int \<times> nat" and r :: int and width :: nat
  assume "s \<noteq> []" "x = DecodeRuneInString s" "(r, width) = x"
  moreover from \<open>s \<noteq> []\<close> have "0 < snd (DecodeRuneInString s)"
    by (simp add: DecodeRuneInString_def Let_def)
  ultimately show "(drop width s, s) \<in> measure length"
    by (cases "DecodeRuneInString s") auto
qed

declare runes.simps [simp del]

definition RuneCountInString :: "string \<Rightarrow> nat" where
  "RuneCountInString s = length (runes s)"

subsection \<open>Package \<open>unicode\<close>\<close>

definition IsSpace :: "int \<Rightarrow> bool" where
  \<comment> \<open>the code points with the property \<open>White_Space\<close>\<close>
  "IsSpace r =
     (r \<in> set [0x09, 0x0A, 0x0B, 0x0C, 0x0D, 0x20, 0x85, 0xA0, 0x1680, 0x2028, 0x2029,
               0x202F, 0x205F, 0x3000] \<or>
      (0x2000 \<le> r \<and> r \<le> 0x200A))"

type_synonym caseTable = "int \<Rightarrow> int"

definition unicode_ToUpper :: "caseTable \<Rightarrow> int \<Rightarrow> int" where
  \<comment> \<open>\<open>unicode.ToUpper\<close>: ASCII is mapped in the code, the rest through the table\<close>
  "unicode_ToUpper uc r =
     (if r \<le> 0x7F then (if 0x61 \<le> r \<and> r \<le> 0x7A then r - 0x20 else r) else uc r)"

subsection \<open>Package \<open>strings\<close>\<close>

definition upperByte :: "char \<Rightarrow> char" where
  \<comment> \<open>\<open>if 'a' <= c && c <= 'z' { c -= 'a' - 'A' }\<close>\<close>
  "upperByte c =
     (let n = of_char c :: int in if 97 \<le> n \<and> n \<le> 122 then char_of (n - 32) else c)"

definition strings_Map :: "(int \<Rightarrow> int) \<Rightarrow> string \<Rightarrow> string" where
  \<comment> \<open>\<open>strings.Map\<close>: every rune of \<open>s\<close>, an invalid byte being \<open>RuneError\<close>, is
      replaced by the encoding of its image, or dropped when the image is negative\<close>
  "strings_Map mapping s =
     concat (map (\<lambda>c. if 0 \<le> mapping c then AppendRune (mapping c) else []) (runes s))"

definition ToUpper :: "caseTable \<Rightarrow> string \<Rightarrow> string" where
  \<comment> \<open>\<open>strings.ToUpper\<close>: bytewise when every byte is ASCII, else rune by rune\<close>
  "ToUpper uc s =
     (if list_all (\<lambda>c. of_char c < (0x80 :: int)) s then map upperByte s
      else strings_Map (unicode_ToUpper uc) s)"

function TrimLeftFunc :: "string \<Rightarrow> (int \<Rightarrow> bool) \<Rightarrow> string" where
  "TrimLeftFunc s f =
     (if s = [] then []
      else (let (r, width) = DecodeRuneInString s
            in if f r then TrimLeftFunc (drop width s) f else s))"
  by pat_completeness auto
termination
proof (relation "measure (\<lambda>(s, f). length s)")
  show "wf (measure (\<lambda>(s :: string, f :: int \<Rightarrow> bool). length s))" by simp
next
  fix s :: string and f :: "int \<Rightarrow> bool" and x :: "int \<times> nat" and r :: int and width :: nat
  assume "s \<noteq> []" "x = DecodeRuneInString s" "(r, width) = x"
  moreover from \<open>s \<noteq> []\<close> have "0 < snd (DecodeRuneInString s)"
    by (simp add: DecodeRuneInString_def Let_def)
  ultimately show "((drop width s, f), (s, f)) \<in> measure (\<lambda>(s, f). length s)"
    by (cases "DecodeRuneInString s") auto
qed

function TrimRightFunc :: "string \<Rightarrow> (int \<Rightarrow> bool) \<Rightarrow> string" where
  "TrimRightFunc s f =
     (if s = [] then []
      else (let (r, width) = DecodeLastRuneInString s
            in if f r then TrimRightFunc (take (length s - width) s) f else s))"
  by pat_completeness auto
termination
proof (relation "measure (\<lambda>(s, f). length s)")
  show "wf (measure (\<lambda>(s :: string, f :: int \<Rightarrow> bool). length s))" by simp
next
  fix s :: string and f :: "int \<Rightarrow> bool" and x :: "int \<times> nat" and r :: int and width :: nat
  assume s: "s \<noteq> []" and x: "x = DecodeLastRuneInString s" "(r, width) = x"
  define start where
    "start = (case find (\<lambda>i. RuneStart (s ! i)) (rev [length s - 4..<length s - 1]) of
                Some i \<Rightarrow> i | None \<Rightarrow> length s - 4 - 1)"
  have "start < length s"
  proof (cases "find (\<lambda>i. RuneStart (s ! i)) (rev [length s - 4..<length s - 1])")
    case None
    then show ?thesis using s by (simp add: start_def)
  next
    case (Some i)
    then obtain k where "k < length (rev [length s - 4..<length s - 1])"
      and "i = rev [length s - 4..<length s - 1] ! k"
      unfolding find_Some_iff by blast
    then have "i \<in> set (rev [length s - 4..<length s - 1])"
      using nth_mem by blast
    then have "i < length s" by auto
    then show ?thesis using Some by (simp add: start_def)
  qed
  then have "0 < snd (DecodeRuneInString (drop start s))"
    by (simp add: DecodeRuneInString_def Let_def)
  then have "0 < snd (DecodeLastRuneInString s)"
    unfolding DecodeLastRuneInString_def Let_def start_def[symmetric]
    using s by (cases "DecodeRuneInString (drop start s)") auto
  with s x show "((take (length s - width) s, f), (s, f)) \<in> measure (\<lambda>(s, f). length s)"
    by (cases "DecodeLastRuneInString s") auto
qed

declare TrimLeftFunc.simps [simp del] TrimRightFunc.simps [simp del]

definition TrimSpace :: "string \<Rightarrow> string" where
  \<comment> \<open>\<open>strings.TrimSpace\<close>; its loops over leading and trailing ASCII bytes compute the
      same as the general case\<close>
  "TrimSpace s = TrimRightFunc (TrimLeftFunc s IsSpace) IsSpace"

definition HasSuffix :: "string \<Rightarrow> string \<Rightarrow> bool" where
  \<comment> \<open>\<open>len(s) >= len(suffix) && s[len(s)-len(suffix):] == suffix\<close>\<close>
  "HasSuffix s suffix =
     (length suffix \<le> length s \<and> drop (length s - length suffix) s = suffix)"

fun Index :: "string \<Rightarrow> string \<Rightarrow> nat option" where
  \<comment> \<open>position of the first occurrence of \<open>sep\<close>; Go's \<open>-1\<close> is \<open>None\<close>\<close>
  "Index [] sep = (if sep = [] then Some 0 else None)"
| "Index (c # s) sep =
     (if take (length sep) (c # s) = sep then Some 0 else map_option Suc (Index s sep))"

definition SplitN2 :: "string \<Rightarrow> string \<Rightarrow> string list" where
  \<comment> \<open>\<open>strings.SplitN(s, sep, 2)\<close>; with an empty separator the first UTF-8 sequence is
      split off, if more than one rune is there\<close>
  "SplitN2 s sep =
     (if sep = [] then
        (let l = RuneCountInString s; width = snd (DecodeRuneInString s)
         in if l = 0 then [] else if l = 1 then [s] else [take width s, drop width s])
      else
        (case Index s sep of
           None \<Rightarrow> [s]
         | Some m \<Rightarrow> [take m s, drop (m + length sep) s]))"

fun SplitByte :: "char \<Rightarrow> string \<Rightarrow> string list" where
  \<comment> \<open>\<open>strings.Split(s, sep)\<close> for a separator of one byte\<close>
  "SplitByte sep [] = [[]]"
| "SplitByte sep (c # s) =
     (if c = sep then [] # SplitByte sep s
      else (case SplitByte sep s of [] \<Rightarrow> [[c]] | y # ys \<Rightarrow> (c # y) # ys))"

section \<open>Data model\<close>

datatype error =
    OpenFailed        \<comment> \<open>\<open>failed to open file\<close>\<close>
  | ReadFailed        \<comment> \<open>\<open>failed to read file\<close> (the scanner's error)\<close>
  | QueryFailed       \<comment> \<open>\<open>failed to query HIBP API\<close> (the transport's error)\<close>
  | BadStatus nat     \<comment> \<open>\<open>HIBP API returned status\<close> other than 200\<close>
  | BodyFailed        \<comment> \<open>\<open>failed to read response body\<close>\<close>
  | WriteFailed       \<comment> \<open>the output writer's error\<close>
  | NilWriter         \<comment> \<open>a write through a nil \<open>io.Writer\<close> (a panic in Go)\<close>

record User =
  Account :: string
  Hash :: string

text \<open>
  A Go map is a \<open>mapping\<close>: \<open>Mapping.lookup\<close> is the two-valued read
  \<open>v, ok := m[k]\<close>, \<open>Mapping.lookup_default\<close> with the zero value is the plain
  read \<open>m[k]\<close>, and \<open>Mapping.size\<close> is \<open>len(m)\<close>.
\<close>

record Checker =
  exposedUsers :: "(string, bool) mapping"
  userHashes :: "(string, string list) mapping"

definition NewChecker :: Checker where
  "NewChecker = \<lparr>exposedUsers = Mapping.empty, userHashes = Mapping.empty\<rparr>"

text \<open>\<open>c.exposedUsers[account]\<close>: a missing key reads as \<open>false\<close>.\<close>

definition isExposed :: "Checker \<Rightarrow> string \<Rightarrow> bool" where
  "isExposed c account = Mapping.lookup_default False (exposedUsers c) account"

section \<open>The result writer\<close>

text \<open>
  The \<open>io.Writer\<close> behind the sink is the lines it has accepted and the outcome of the
  calls to come: \<open>faults\<close> holds one flag per future call (\<open>True\<close>: that call fails),
  and a call beyond the list succeeds.
\<close>

datatype io_writer = Writer (written: "string list") (faults: "bool list")

definition Fprintln :: "io_writer \<Rightarrow> string \<Rightarrow> io_writer \<times> error option" where
  "Fprintln w line =
     (case faults w of
        [] \<Rightarrow> (Writer (written w @ [line]) [], None)
      | f # fs \<Rightarrow>
          if f then (Writer (written w) fs, Some WriteFailed)
          else (Writer (written w @ [line]) fs, None))"

record ResultWriter =
  writer :: "io_writer option"
  count :: int
  enabled :: bool

definition NewResultWriter :: "io_writer option \<Rightarrow> ResultWriter" where
  "NewResultWriter w = \<lparr>writer = w, count = 0, enabled = (w \<noteq> None)\<rparr>"

definition Write :: "ResultWriter \<Rightarrow> string \<Rightarrow> ResultWriter \<times> error option" where
  "Write rw account =
     (if \<not> enabled rw then (rw, None)
      else
        (case writer rw of
           None \<Rightarrow> (rw, Some NilWriter)
         | Some w \<Rightarrow>
             (let (w', err) = Fprintln w account
              in (rw\<lparr>writer := Some w',
                     count := (if err = None then count rw + 1 else count rw)\<rparr>, err))))"

definition Count :: "ResultWriter \<Rightarrow> int" where
  "Count rw = count rw"

section \<open>Loading the records\<close>

text \<open>
  \<open>os.Open\<close> followed by \<open>bufio.NewScanner\<close> is a function from the file name to
  either the open error or the scanner. The scanner is what the loop observes of it:
  the text of each successful \<open>Scan()\<close> together with the value \<open>Err()\<close> would return
  right after that call, and the value of \<open>Err()\<close> once \<open>Scan()\<close> has returned false
  (end of input is \<open>None\<close>; a failed read or a line longer than the scanner's buffer is
  an error).
\<close>

record scanner =
  tokens :: "(string \<times> error option) list"
  final :: "error option"

type_synonym filesystem = "string \<Rightarrow> error + scanner"

fun scanLoop ::
  "string \<Rightarrow> bool \<Rightarrow> int \<Rightarrow> (string \<times> error option) list \<Rightarrow> error option \<Rightarrow>
   bool \<Rightarrow> User list \<Rightarrow> User list \<times> error option" where
  "scanLoop delimiter skipHeader limit [] fin firstLine users = (users, fin)"
| "scanLoop delimiter skipHeader limit ((text, e) # rest) fin firstLine users =
     (let line = TrimSpace text in
      if line = [] then scanLoop delimiter skipHeader limit rest fin firstLine users
      else if firstLine \<and> skipHeader then
        scanLoop delimiter skipHeader limit rest fin False users
      else
        (let parts = SplitN2 line delimiter in
         if length parts \<noteq> 2 then scanLoop delimiter skipHeader limit rest fin False users
         else
           (let users' = users @ [\<lparr>Account = parts ! 0, Hash = parts ! 1\<rparr>] in
            if limit > 0 \<and> int (length users') \<ge> limit then (users', e)
            else scanLoop delimiter skipHeader limit rest fin False users')))"

definition loadUsers ::
  "filesystem \<Rightarrow> string \<Rightarrow> string \<Rightarrow> bool \<Rightarrow> int \<Rightarrow> error + User list" where
  "loadUsers fs filename delimiter skipHeader limit =
     (case fs filename of
        Inl e \<Rightarrow> Inl OpenFailed
      | Inr sc \<Rightarrow>
          (case scanLoop delimiter skipHeader limit (tokens sc) (final sc) True [] of
             (users, Some e) \<Rightarrow> Inl ReadFailed
           | (users, None) \<Rightarrow> Inr users))"

section \<open>Building the hash index\<close>

fun indexLoop ::
  "caseTable \<Rightarrow> User list \<Rightarrow> (string, string list) mapping \<Rightarrow> (string, bool) mapping \<Rightarrow> string list \<Rightarrow>
   (string, string list) mapping \<times> string list" where
  "indexLoop uc [] uh seen prefixes = (uh, prefixes)"
| "indexLoop uc (user # users) uh seen prefixes =
     (if HasSuffix (Account user) ''$'' \<or> TrimSpace (Hash user) = [] then
        indexLoop uc users uh seen prefixes
      else
        (let hash = ToUpper uc (Hash user) in
         if length hash < 5 then indexLoop uc users uh seen prefixes
         else
           (let uh' = Mapping.update hash (Mapping.lookup_default [] uh hash @ [Account user]) uh;
                prefix = take 5 hash
            in if \<not> Mapping.lookup_default False seen prefix then
                 indexLoop uc users uh' (Mapping.update prefix True seen) (prefixes @ [prefix])
               else indexLoop uc users uh' seen prefixes)))"

definition buildHashIndex :: "caseTable \<Rightarrow> Checker \<Rightarrow> User list \<Rightarrow> Checker \<times> string list" where
  "buildHashIndex uc c users =
     (let (uh, prefixes) = indexLoop uc users (userHashes c) Mapping.empty []
      in (c\<lparr>userHashes := uh\<rparr>, prefixes))"

section \<open>Matching a response against the index\<close>

text \<open>
  What a run shares between its workers: the checker, the result writer, the console and
  the prefixes sent to the provider so far.
\<close>

datatype message =
    Exposed string            \<comment> \<open>\<open>[EXPOSED] account\<close>\<close>
  | QueryError string error   \<comment> \<open>\<open>[ERROR] Failed to query prefix\<close>\<close>
  | WriteError error          \<comment> \<open>\<open>[ERROR] Failed to write result\<close>\<close>
  | Found nat nat             \<comment> \<open>\<open>Found n users, m unique hash prefixes to query\<close>\<close>
  | Progress int int          \<comment> \<open>the progress line: current and total\<close>
  | Queried int int           \<comment> \<open>\<open>Queried n prefixes ... using w workers\<close>\<close>

record world =
  checker :: Checker
  sink :: ResultWriter
  stdout :: "message list"
  requests :: "string list"

text \<open>
  The client, seen from the checker, is \<open>QueryRangeRaw\<close>: the provider's answer to a
  prefix, or the error. Behind it is one HTTP GET, which fails in the transport or returns
  a status and a body (\<open>None\<close> when reading the body fails).
\<close>

type_synonym client = "string \<Rightarrow> error + string"

datatype http_result = GetFailed | Got nat "string option"

definition QueryRangeRaw :: "(string \<Rightarrow> http_result) \<Rightarrow> client" where
  "QueryRangeRaw get hashPrefix =
     (case get (''https://api.pwnedpasswords.com/range/'' @ hashPrefix @ ''?mode=ntlm'') of
        GetFailed \<Rightarrow> Inl QueryFailed
      | Got status body \<Rightarrow>
          if status \<noteq> 200 then Inl (BadStatus status)
          else (case body of None \<Rightarrow> Inl BodyFailed | Some text \<Rightarrow> Inr text))"

text \<open>The loop over the accounts of a matched hash, run under the write lock.\<close>

fun markExposed :: "string list \<Rightarrow> world \<Rightarrow> world" where
  "markExposed [] w = w"
| "markExposed (account # accounts) w =
     (if \<not> isExposed (checker w) account then
        (let (rw, err) = Write (sink w) account
         in markExposed accounts
              (w\<lparr>checker := (checker w)\<lparr>exposedUsers :=
                     Mapping.update account True (exposedUsers (checker w))\<rparr>,
                 sink := rw,
                 stdout := stdout w @ [Exposed account] @
                   (case err of None \<Rightarrow> [] | Some e \<Rightarrow> [WriteError e])\<rparr>))
      else markExposed accounts w)"

text \<open>The body of the loop over the lines of a response.\<close>

definition matchLine :: "caseTable \<Rightarrow> string \<Rightarrow> string \<Rightarrow> world \<Rightarrow> world" where
  "matchLine uc prefix text w =
     (let line = TrimSpace text in
      if line = [] then w
      else
        (let parts = SplitN2 line '':'' in
         if length parts \<noteq> 2 then w
         else
           (let fullHash = prefix @ ToUpper uc (parts ! 0) in
            case Mapping.lookup (userHashes (checker w)) fullHash of
              None \<Rightarrow> w
            | Some accounts \<Rightarrow> markExposed accounts w)))"

definition checkPrefixMatches :: "caseTable \<Rightarrow> client \<Rightarrow> string \<Rightarrow> world \<Rightarrow> world" where
  "checkPrefixMatches uc api prefix w =
     (let w0 = w\<lparr>requests := requests w @ [prefix]\<rparr> in
      case api prefix of
        Inl err \<Rightarrow> w0\<lparr>stdout := stdout w0 @ [QueryError prefix err]\<rparr>
      | Inr resp \<Rightarrow> fold (matchLine uc prefix) (SplitByte (CHR 0x0A) resp) w0)"

section \<open>The worker pool\<close>

text \<open>
  The workers share the job queue, the completion counter and the world. A worker is
  waiting for a job, is checking the lines of the response to its prefix, or has left its
  loop because the queue is closed and empty. One step of a worker is one of the actions
  that the locks and the channel make atomic: taking a job and querying its prefix,
  checking one line, or counting a finished prefix. The index is only read during a run,
  so the lookup of a line and the locked loop that follows it are one step. A step of a
  worker that does not exist, or that has left its loop, changes nothing.
\<close>

datatype worker = Idle | Busy string "string list" | Exited

record pool =
  shared :: world
  jobs :: "string list"
  workers :: "worker list"
  completed :: int
  total :: int

definition workerStep :: "caseTable \<Rightarrow> client \<Rightarrow> nat \<Rightarrow> pool \<Rightarrow> pool" where
  "workerStep uc api i p =
     (if length (workers p) \<le> i then p else
      case workers p ! i of
        Exited \<Rightarrow> p
      | Idle \<Rightarrow>
          (case jobs p of
             [] \<Rightarrow> p\<lparr>workers := (workers p)[i := Exited]\<rparr>
           | prefix # rest \<Rightarrow>
               (let w0 = (shared p)\<lparr>requests := requests (shared p) @ [prefix]\<rparr> in
                case api prefix of
                  Inl err \<Rightarrow>
                    p\<lparr>shared := w0\<lparr>stdout := stdout w0 @ [QueryError prefix err]\<rparr>,
                      jobs := rest, workers := (workers p)[i := Busy prefix []]\<rparr>
                | Inr resp \<Rightarrow>
                    p\<lparr>shared := w0, jobs := rest,
                      workers := (workers p)[i := Busy prefix (SplitByte (CHR 0x0A) resp)]\<rparr>))
      | Busy prefix [] \<Rightarrow>
          p\<lparr>shared := (shared p)\<lparr>stdout := stdout (shared p) @
                 [Progress (completed p + 1) (total p)]\<rparr>,
            workers := (workers p)[i := Idle], completed := completed p + 1\<rparr>
      | Busy prefix (text # rest) \<Rightarrow>
          p\<lparr>shared := matchLine uc prefix text (shared p),
            workers := (workers p)[i := Busy prefix rest]\<rparr>)"

text \<open>The workers that can take a step, and the steps each piece of work still needs.\<close>

definition runnable :: "worker list \<Rightarrow> nat list" where
  "runnable ws = filter (\<lambda>i. ws ! i \<noteq> Exited) [0..<length ws]"

definition jobCost :: "client \<Rightarrow> string \<Rightarrow> nat" where
  "jobCost api prefix =
     (case api prefix of Inl err \<Rightarrow> 2 | Inr resp \<Rightarrow> length (SplitByte (CHR 0x0A) resp) + 2)"

fun workerCost :: "worker \<Rightarrow> nat" where
  "workerCost Idle = 1"
| "workerCost (Busy prefix ls) = length ls + 2"
| "workerCost Exited = 0"

definition work :: "client \<Rightarrow> pool \<Rightarrow> nat" where
  "work api p = sum_list (map (jobCost api) (jobs p)) + sum_list (map workerCost (workers p))"

text \<open>
  A run of the pool under a schedule: each entry of \<open>sched\<close> picks the next worker to
  step among those that can; when the schedule is used up the first such worker goes on.
  Every interleaving of the workers is the run of some schedule, and the run ends when
  every worker has left its loop, which is when \<open>wg.Wait()\<close> returns.
\<close>

function pool_run :: "caseTable \<Rightarrow> client \<Rightarrow> nat list \<Rightarrow> pool \<Rightarrow> pool" where
  "pool_run uc api sched p =
     (case runnable (workers p) of
        [] \<Rightarrow> p
      | i # is \<Rightarrow>
          pool_run uc api (tl sched)
            (workerStep uc api
               ((i # is) ! (case sched of [] \<Rightarrow> 0 | n # ns \<Rightarrow> n mod length (i # is))) p))"
  by pat_completeness auto
termination
proof (relation "measure (\<lambda>(uc, api, sched, p). work api p)")
  show "wf (measure (\<lambda>(uc, api, sched, p). work api p))"
    by simp
next
  fix uc :: caseTable and api :: client and sched :: "nat list" and p :: pool and i :: nat and "is" :: "nat list"
  assume r: "runnable (workers p) = i # is"
  define k where "k = (i # is) ! (case sched of [] \<Rightarrow> 0 | n # ns \<Rightarrow> n mod length (i # is))"
  have "(case sched of [] \<Rightarrow> 0 | n # ns \<Rightarrow> n mod length (i # is)) < length (i # is)"
    by (cases sched) simp_all
  then have "k \<in> set (runnable (workers p))"
    unfolding k_def r by (rule nth_mem)
  then have k: "k < length (workers p)" "workers p ! k \<noteq> Exited"
    by (simp_all add: runnable_def)
  have "map workerCost (workers p) ! k \<in> set (map workerCost (workers p))"
    using k(1) by (intro nth_mem) simp
  then have le: "workerCost (workers p ! k) \<le> sum_list (map workerCost (workers p))"
    using k(1) member_le_sum_list[of "map workerCost (workers p) ! k" "map workerCost (workers p)"]
    by simp
  have upd: "sum_list (map workerCost ((workers p)[k := v])) + workerCost (workers p ! k) =
             sum_list (map workerCost (workers p)) + workerCost v" for v
    using k(1) le by (simp add: map_update sum_list_update)
  have "work api (workerStep uc api k p) < work api p"
  proof (cases "workers p ! k")
    case Idle
    show ?thesis
    proof (cases "jobs p")
      case Nil
      with Idle k(1) upd[of Exited] show ?thesis
        by (simp add: workerStep_def work_def)
    next
      case (Cons prefix rest)
      show ?thesis
      proof (cases "api prefix")
        case (Inl err)
        with Idle Cons k(1) upd[of "Busy prefix []"] show ?thesis
          by (simp add: workerStep_def work_def jobCost_def)
      next
        case (Inr resp)
        with Idle Cons k(1) upd[of "Busy prefix (SplitByte (CHR 0x0A) resp)"] show ?thesis
          by (simp add: workerStep_def work_def jobCost_def)
      qed
    qed
  next
    case (Busy prefix ls)
    show ?thesis
    proof (cases ls)
      case Nil
      with Busy k(1) upd[of Idle] show ?thesis
        by (simp add: workerStep_def work_def)
    next
      case (Cons ln rest)
      with Busy k(1) upd[of "Busy prefix rest"] show ?thesis
        by (simp add: workerStep_def work_def)
    qed
  next
    case Exited
    with k(2) show ?thesis by simp
  qed
  then show "((uc, api, tl sched, workerStep uc api
                 ((i # is) ! (case sched of [] \<Rightarrow> 0 | n # ns \<Rightarrow> n mod length (i # is))) p),
              (uc, api, sched, p)) \<in> measure (\<lambda>(uc, api, sched, p). work api p)"
    by (simp add: k_def)
qed

definition queryPrefixesConcurrently ::
  "caseTable \<Rightarrow> client \<Rightarrow> nat list \<Rightarrow> string list \<Rightarrow> int \<Rightarrow> world \<Rightarrow> world" where
  "queryPrefixesConcurrently uc api sched prefixes nworkers w =
     (let n = (if nworkers < 1 then 1 else nworkers);
          p = pool_run uc api sched
                \<lparr>shared = w, jobs = prefixes, workers = replicate (nat n) Idle,
                 completed = 0, total = int (length prefixes)\<rparr>
      in (shared p)\<lparr>stdout := stdout (shared p) @ [Queried (total p) n]\<rparr>)"

section \<open>CheckFile\<close>

definition CheckFile ::
  "caseTable \<Rightarrow> filesystem \<Rightarrow> client \<Rightarrow> nat list \<Rightarrow> string \<Rightarrow> string \<Rightarrow> bool \<Rightarrow> int \<Rightarrow> int \<Rightarrow>
   world \<Rightarrow> world \<times> int \<times> error option" where
  "CheckFile uc fs api sched filename delimiter skipHeader nworkers limit w =
     (case loadUsers fs filename delimiter skipHeader limit of
        Inl err \<Rightarrow> (w, 0, Some err)
      | Inr users \<Rightarrow>
          (let (c, prefixesToQuery) = buildHashIndex uc (checker w) users;
               w1 = w\<lparr>checker := c,
                      stdout := stdout w @ [Found (length users) (length prefixesToQuery)]\<rparr>;
               w2 = (if length prefixesToQuery > 0
                     then queryPrefixesConcurrently uc api sched prefixesToQuery nworkers w1
                     else w1)
           in (w2, int (Mapping.size (exposedUsers (checker w2))), None)))"

text \<open>
  The world in which the command calls \<open>CheckFile\<close>: a new checker, and a result writer
  on the output file or on nil when no output file is given.
\<close>

definition newWorld :: "io_writer option \<Rightarrow> world" where
  "newWorld out =
     \<lparr>checker = NewChecker, sink = NewResultWriter out, stdout = [], requests = []\<rparr>"

text \<open>
  The loop of one worker as the source writes it, for a worker that is alone: check the next
  prefix, count it, print the progress. A pool of one worker is this loop (lemma
  \<open>pool_run_one_worker\<close>).
\<close>

fun workerLoop :: "caseTable \<Rightarrow> client \<Rightarrow> int \<Rightarrow> int \<Rightarrow> string list \<Rightarrow> world \<Rightarrow> world" where
  "workerLoop uc api t k [] w = w"
| "workerLoop uc api t k (prefix # rest) w =
     (let w1 = checkPrefixMatches uc api prefix w
      in workerLoop uc api t (k + 1) rest (w1\<lparr>stdout := stdout w1 @ [Progress (k + 1) t]\<rparr>))"

section \<open>What the specification says\<close>

subsection \<open>The sink over its lifetime\<close>

text \<open>A sequence of \<open>Write\<close> calls on one writer, with the error each call returns.\<close>

fun WriteAll :: "ResultWriter \<Rightarrow> string list \<Rightarrow> ResultWriter \<times> error option list" where
  "WriteAll rw [] = (rw, [])"
| "WriteAll rw (account # accounts) =
     (let (rw1, err) = Write rw account; (rw2, errs) = WriteAll rw1 accounts
      in (rw2, err # errs))"

subsection \<open>Records and the index\<close>

text \<open>
  The records the index leaves out: a machine account, a hash that is blank after trimming,
  or an uppercased hash shorter than the prefix.
\<close>

definition excluded :: "caseTable \<Rightarrow> User \<Rightarrow> bool" where
  "excluded uc u =
     (HasSuffix (Account u) ''$'' \<or> TrimSpace (Hash u) = [] \<or> length (ToUpper uc (Hash u)) < 5)"

definition seenSet :: "(string, bool) mapping \<Rightarrow> string set" where
  "seenSet seen = {p. Mapping.lookup_default False seen p}"


subsection \<open>The loader\<close>

text \<open>
  The records of a sequence of lines: trim every line and drop the blank ones; with
  \<open>skipHeader\<close> drop the first line that is left; drop the lines that do not split into
  exactly two parts; a positive limit keeps that many records.
\<close>

definition bodyLines :: "bool \<Rightarrow> string list \<Rightarrow> string list" where
  "bodyLines skipHeader texts =
     (let nonblank = filter (\<lambda>l. l \<noteq> []) (map TrimSpace texts)
      in if skipHeader then drop 1 nonblank else nonblank)"

definition parseRecords :: "string \<Rightarrow> string list \<Rightarrow> User list" where
  "parseRecords delimiter ls =
     map (\<lambda>l. \<lparr>Account = SplitN2 l delimiter ! 0, Hash = SplitN2 l delimiter ! 1\<rparr>)
       (filter (\<lambda>l. length (SplitN2 l delimiter) = 2) ls)"

definition recordsOf :: "string \<Rightarrow> bool \<Rightarrow> int \<Rightarrow> string list \<Rightarrow> User list" where
  "recordsOf delimiter skipHeader limit texts =
     (let records = parseRecords delimiter (bodyLines skipHeader texts)
      in if limit > 0 then take (nat limit) records else records)"

text \<open>A source that the scanner reads to its end without ever reporting an error.\<close>

definition readable :: "scanner \<Rightarrow> bool" where
  "readable sc = (final sc = None \<and> list_all (\<lambda>te. snd te = None) (tokens sc))"

text \<open>
  What \<open>Err()\<close> returns when the loading loop stops. With a positive limit the loop stops
  right after the first line that completes \<open>limit\<close> records, if there is one, and an
  error that the scanner would meet further on is never seen; otherwise the loop stops when
  \<open>Scan()\<close> returns false.
\<close>

definition exitErr :: "string \<Rightarrow> bool \<Rightarrow> int \<Rightarrow> scanner \<Rightarrow> error option" where
  "exitErr delimiter skipHeader limit sc =
     (case (if limit > 0 then
              find (\<lambda>k. nat limit \<le> length (recordsOf delimiter skipHeader 0
                                             (take (Suc k) (map fst (tokens sc)))))
                [0..<length (tokens sc)]
            else None) of
        None \<Rightarrow> final sc
      | Some k \<Rightarrow> snd (tokens sc ! k))"

subsection \<open>Matches\<close>

text \<open>
  The accounts a line of a response matches: none for a line that is blank after trimming
  or does not split in two at the first colon, else the accounts indexed under the prefix
  followed by the uppercased suffix. The matches of a response are those of its lines, the
  matches of a prefix those of its response (none when the query fails), and the matches of
  a run those of its prefixes.
\<close>

definition lineMatches ::
  "caseTable \<Rightarrow> (string, string list) mapping \<Rightarrow> string \<Rightarrow> string \<Rightarrow> string list" where
  "lineMatches uc uh prefix text =
     (let line = TrimSpace text; parts = SplitN2 line '':''
      in if line \<noteq> [] \<and> length parts = 2
         then Mapping.lookup_default [] uh (prefix @ ToUpper uc (parts ! 0))
         else [])"

definition responseMatches ::
  "caseTable \<Rightarrow> (string, string list) mapping \<Rightarrow> string \<Rightarrow> string \<Rightarrow> string list" where
  "responseMatches uc uh prefix resp =
     concat (map (lineMatches uc uh prefix) (SplitByte (CHR 0x0A) resp))"

definition prefixMatches ::
  "caseTable \<Rightarrow> client \<Rightarrow> (string, string list) mapping \<Rightarrow> string \<Rightarrow> string list" where
  "prefixMatches uc api uh prefix =
     (case api prefix of Inl e \<Rightarrow> [] | Inr resp \<Rightarrow> responseMatches uc uh prefix resp)"

definition allMatches ::
  "caseTable \<Rightarrow> client \<Rightarrow> (string, string list) mapping \<Rightarrow> string list \<Rightarrow> string list" where
  "allMatches uc api uh prefixes = concat (map (prefixMatches uc api uh) prefixes)"

text \<open>The exposure set after marking a list of accounts.\<close>

definition markAll :: "string list \<Rightarrow> (string, bool) mapping \<Rightarrow> (string, bool) mapping" where
  "markAll accounts m = fold (\<lambda>a. Mapping.update a True) accounts m"

definition failed :: "client \<Rightarrow> string \<Rightarrow> bool" where
  "failed api prefix = (case api prefix of Inl e \<Rightarrow> True | Inr resp \<Rightarrow> False)"

subsection \<open>What a run leaves on the console and in the sink\<close>

text \<open>
  The Findings are the accounts of the \<open>[EXPOSED]\<close> lines, in the order printed; likewise
  the write errors and the prefixes of the query errors. \<open>sinkLines\<close> are the lines the
  destination has accepted.
\<close>

fun findings :: "message list \<Rightarrow> string list" where
  "findings [] = []"
| "findings (Exposed a # ms) = a # findings ms"
| "findings (m # ms) = findings ms"

fun writeErrors :: "message list \<Rightarrow> error list" where
  "writeErrors [] = []"
| "writeErrors (WriteError e # ms) = e # writeErrors ms"
| "writeErrors (m # ms) = writeErrors ms"

fun queryErrors :: "message list \<Rightarrow> string list" where
  "queryErrors [] = []"
| "queryErrors (QueryError prefix e # ms) = prefix # queryErrors ms"
| "queryErrors (m # ms) = queryErrors ms"

definition sinkLines :: "world \<Rightarrow> string list" where
  "sinkLines w = (case writer (sink w) of None \<Rightarrow> [] | Some io \<Rightarrow> written io)"

subsection \<open>Invariants of a run\<close>

text \<open>
  No account is announced twice and every announced account is marked; no line is written
  twice and every written line was announced.
\<close>

definition findingsInv :: "world \<Rightarrow> bool" where
  "findingsInv w =
     (distinct (findings (stdout w)) \<and> list_all (isExposed (checker w)) (findings (stdout w)))"

definition exposureInv :: "world \<Rightarrow> bool" where
  "exposureInv w =
     (distinct (findings (stdout w)) \<and>
      list_all (isExposed (checker w)) (findings (stdout w)) \<and>
      distinct (sinkLines w) \<and>
      list_all (\<lambda>a. a \<in> set (findings (stdout w))) (sinkLines w))"

text \<open>
  For a sink with a destination, every Finding has either raised the counter or printed a
  write error; and in a run from the new world the keys of the exposure set are the
  Findings.
\<close>

definition countInv :: "int \<Rightarrow> world \<Rightarrow> bool" where
  "countInv c0 w =
     (enabled (sink w) \<and> writer (sink w) \<noteq> None \<and>
      count (sink w) + int (length (writeErrors (stdout w))) =
        c0 + int (length (findings (stdout w))))"

definition keysInv :: "world \<Rightarrow> bool" where
  "keysInv w = (set (findings (stdout w)) = Mapping.keys (exposedUsers (checker w)))"

text \<open>
  The matches still to come in a pool: those of the lines its workers have not checked yet
  and those of the prefixes still in the queue.
\<close>

fun workerPending :: "caseTable \<Rightarrow> (string, string list) mapping \<Rightarrow> worker \<Rightarrow> string list" where
  "workerPending uc uh (Busy prefix ls) = concat (map (lineMatches uc uh prefix) ls)"
| "workerPending uc uh w = []"

definition pending ::
  "caseTable \<Rightarrow> client \<Rightarrow> (string, string list) mapping \<Rightarrow> pool \<Rightarrow> string list" where
  "pending uc api uh p =
     concat (map (workerPending uc uh) (workers p)) @ allMatches uc api uh (jobs p)"

section \<open>An example run\<close>

text \<open>
  The case table of the examples is the part of \<open>unicode.CaseRanges\<close> for Latin-1: the
  micro sign, the letters from \<open>U+00E0\<close> to \<open>U+00FE\<close> other than the division
  sign, and y with diaeresis. The rows above \<open>U+00FF\<close> are left out: no example has
  such a code point.
\<close>

definition demoUpper :: caseTable where
  "demoUpper r =
     (if r = 0xB5 then 0x39C
      else if 0xE0 \<le> r \<and> r \<le> 0xFE \<and> r \<noteq> 0xF7 then r - 0x20
      else if r = 0xFF then 0x178
      else r)"

text \<open>
  Strings of the examples that are not ASCII: the UTF-8 encodings of \<open>U+00A0\<close> (the
  no-break space), of the letter e with acute accent, small and capital, and of
  \<open>U+FFFD\<close>, the replacement character; and three bytes that are not UTF-8.
\<close>

definition nbsp :: string where
  "nbsp = [CHR 0xC2, CHR 0xA0]"

definition e_acute :: string where
  "e_acute = [CHR 0xC3, CHR 0xA9]"

definition E_acute :: string where
  "E_acute = [CHR 0xC3, CHR 0x89]"

definition replacement :: string where
  "replacement = [CHR 0xEF, CHR 0xBF, CHR 0xBD]"

definition notUTF8 :: string where
  "notUTF8 = [CHR 0xFF, CHR 0xFF, CHR 0xFF]"

text \<open>
  An export with a header, a blank line, three people of whom two share a password, a
  machine account, a line without delimiter, an empty hash and a fourth person; and a
  provider that knows the passwords of the first three and fails on the prefix of the
  fourth.
\<close>

definition demoLines :: "string list" where
  "demoLines =
     [''Account:Hash'', '''',
      ''alice:aaaaa1111122223333444455556666'',
      ''bob:BBBBB1111122223333444455556666'',
      ''carol:bbbbb1111122223333444455556666'',
      ''PC01$:AAAAA1111122223333444455556666'',
      ''no delimiter here'',
      ''dave:'',
      ''erin:CCCCC1111122223333444455556666'']"

definition demoFiles :: filesystem where
  "demoFiles name =
     (if name = ''accounts.txt''
      then Inr \<lparr>tokens = map (\<lambda>l. (l, None)) demoLines, final = None\<rparr>
      else Inl OpenFailed)"

definition demoApi :: client where
  "demoApi prefix =
     (if prefix = ''AAAAA''
      then Inr (''0000000000000000000000000:12'' @ [CHR 0x0D, CHR 0x0A] @
                ''1111122223333444455556666:3'' @ [CHR 0x0D, CHR 0x0A])
      else if prefix = ''BBBBB'' then Inr ''1111122223333444455556666:7''
      else Inl QueryFailed)"

text \<open>Three workers under some schedule, writing to an empty file that never fails.\<close>

definition demoRun :: "world \<times> int \<times> error option" where
  "demoRun = CheckFile demoUpper demoFiles demoApi [2, 0, 1, 1, 0, 2] ''accounts.txt'' '':'' True 3 0
               (newWorld (Some (Writer [] [])))"

text \<open>A second run on the world the first one has left, with two workers.\<close>

definition demoRerun :: "world \<times> int \<times> error option" where
  "demoRerun = CheckFile demoUpper demoFiles demoApi [1, 1, 0] ''accounts.txt'' '':'' True 2 0 (fst demoRun)"

text \<open>Two workers, and a destination whose first write fails.\<close>

definition demoFaulty :: "world \<times> int \<times> error option" where
  "demoFaulty = CheckFile demoUpper demoFiles demoApi [0, 1] ''accounts.txt'' '':'' True 2 0
                  (newWorld (Some (Writer [] [True])))"

text \<open>The new world once the index of the example is built.\<close>

definition demoIndexed :: world where
  "demoIndexed =
     (newWorld None)\<lparr>checker :=
        fst (buildHashIndex demoUpper NewChecker (recordsOf '':'' True 0 demoLines))\<rparr>"

section \<open>Lemmas on the result writer and the index loop\<close>

lemma WriteAll_disabled: "\<not> enabled rw \<Longrightarrow> WriteAll rw accounts = (rw, replicate (length accounts) None)"
  by (induction accounts) (auto simp: Write_def)

text \<open>
  A writer made by \<open>NewResultWriter\<close> is enabled only with a destination, \<open>Write\<close>
  keeps it so, and such a writer never writes through nil.
\<close>

lemma Write_never_nil:
  "enabled rw \<longrightarrow> writer rw \<noteq> None \<Longrightarrow>
   snd (Write rw a) \<noteq> Some NilWriter \<and>
   (enabled (fst (Write rw a)) \<longrightarrow> writer (fst (Write rw a)) \<noteq> None)"
  by (auto simp: Write_def Fprintln_def split: option.splits list.splits prod.splits)

lemma NewResultWriter_enabled: "enabled (NewResultWriter w) \<longrightarrow> writer (NewResultWriter w) \<noteq> None"
  by (simp add: NewResultWriter_def)

lemma WriteAll_count:
  "enabled rw \<Longrightarrow> writer rw \<noteq> None \<Longrightarrow> WriteAll rw accounts = (rw', errs) \<Longrightarrow>
   count rw' = count rw + int (length (filter (\<lambda>e. e = None) errs)) \<and> enabled rw' \<and> writer rw' \<noteq> None \<and> length errs = length accounts"
proof (induction accounts arbitrary: rw rw' errs)
  case Nil then show ?case by simp
next
  case (Cons a as)
  obtain rw1 err where w: "Write rw a = (rw1, err)" by (cases "Write rw a")
  obtain rw2 errs2 where r: "WriteAll rw1 as = (rw2, errs2)" by (cases "WriteAll rw1 as")
  from w Cons.prems(1,2) have e1: "enabled rw1" "writer rw1 \<noteq> None"
    and c1: "count rw1 = (if err = None then count rw + 1 else count rw)"
    by (auto simp: Write_def split: option.splits prod.splits)
  from Cons.IH[OF e1 r] Cons.prems(3) w r c1 show ?case by auto
qed

lemma indexLoop_excl:
  "excluded uc user \<Longrightarrow> indexLoop uc (user # users) uh seen ps = indexLoop uc users uh seen ps"
  by (auto simp: excluded_def Let_def)

lemma indexLoop_incl:
  "\<not> excluded uc user \<Longrightarrow>
   indexLoop uc (user # users) uh seen ps =
     indexLoop uc users
       (Mapping.update (ToUpper uc (Hash user)) (Mapping.lookup_default [] uh (ToUpper uc (Hash user)) @ [Account user]) uh)
       (if take 5 (ToUpper uc (Hash user)) \<in> seenSet seen then seen
        else Mapping.update (take 5 (ToUpper uc (Hash user))) True seen)
       (if take 5 (ToUpper uc (Hash user)) \<in> seenSet seen then ps
        else ps @ [take 5 (ToUpper uc (Hash user))])"
  by (auto simp: excluded_def Let_def seenSet_def)

lemma seenSet_upd: "seenSet (Mapping.update p True seen) = insert p (seenSet seen)"
  by (auto simp: seenSet_def lookup_default_update')

lemma seenSet_empty: "seenSet Mapping.empty = {}"
  by (simp add: seenSet_def lookup_default_empty)

lemma indexLoop_hashes:
  "Mapping.lookup (fst (indexLoop uc users uh seen ps)) h =
     (let new = map Account (filter (\<lambda>u. \<not> excluded uc u \<and> ToUpper uc (Hash u) = h) users)
      in if new = [] then Mapping.lookup uh h else Some (Mapping.lookup_default [] uh h @ new))"
proof (induction users arbitrary: uh seen ps)
  case Nil
  then show ?case by simp
next
  case (Cons user users)
  show ?case
  proof (cases "excluded uc user")
    case True
    then show ?thesis using Cons.IH by (simp add: indexLoop_excl del: indexLoop.simps)
  next
    case False
    then show ?thesis
      by (simp add: indexLoop_incl Cons.IH Let_def lookup_update' lookup_default_update' del: indexLoop.simps)
  qed
qed

lemma indexLoop_prefixes:
  "seenSet seen = set ps \<Longrightarrow> distinct ps \<Longrightarrow>
   distinct (snd (indexLoop uc users uh seen ps)) \<and>
   set (snd (indexLoop uc users uh seen ps)) =
     set ps \<union> {take 5 (ToUpper uc (Hash u)) |u. u \<in> set users \<and> \<not> excluded uc u}"
proof (induction users arbitrary: uh seen ps)
  case Nil
  then show ?case by simp
next
  case (Cons user users)
  show ?case
  proof (cases "excluded uc user")
    case True
    then show ?thesis using Cons.IH[OF Cons.prems] by (auto simp add: indexLoop_excl simp del: indexLoop.simps)
  next
    case False
    let ?p = "take 5 (ToUpper uc (Hash user))"
    let ?uh = "Mapping.update (ToUpper uc (Hash user)) (Mapping.lookup_default [] uh (ToUpper uc (Hash user)) @ [Account user]) uh"
    show ?thesis
    proof (cases "?p \<in> set ps")
      case True
      have eq: "indexLoop uc (user # users) uh seen ps = indexLoop uc users ?uh seen ps"
        using False True Cons.prems by (simp add: indexLoop_incl del: indexLoop.simps)
      from Cons.IH[OF Cons.prems, of ?uh] True False show ?thesis unfolding eq by auto
    next
      case notin: False
      have eq: "indexLoop uc (user # users) uh seen ps =
                indexLoop uc users ?uh (Mapping.update ?p True seen) (ps @ [?p])"
        using False notin Cons.prems by (simp add: indexLoop_incl del: indexLoop.simps)
      have "seenSet (Mapping.update ?p True seen) = set (ps @ [?p])" "distinct (ps @ [?p])"
        using notin Cons.prems by (auto simp: seenSet_upd)
      from Cons.IH[OF this, of ?uh] have
        d: "distinct (snd (indexLoop uc users ?uh (Mapping.update ?p True seen) (ps @ [?p])))" and
        s: "set (snd (indexLoop uc users ?uh (Mapping.update ?p True seen) (ps @ [?p]))) =
            set (ps @ [?p]) \<union> {take 5 (ToUpper uc (Hash u)) |u. u \<in> set users \<and> \<not> excluded uc u}"
        by blast+
      show ?thesis unfolding eq using d s False by auto
    qed
  qed
qed

lemma indexLoop_keys:
  "Mapping.keys (fst (indexLoop uc users uh seen ps)) =
     Mapping.keys uh \<union> {ToUpper uc (Hash u) |u. u \<in> set users \<and> \<not> excluded uc u}"
  unfolding keys_dom_lookup
  by (auto simp: indexLoop_hashes Let_def filter_empty_conv dom_def split: if_splits)

section \<open>Lemmas on the loading loop\<close>

lemma bodyLines_Nil [simp]: "bodyLines b [] = []"
  by (simp add: bodyLines_def)

lemma bodyLines_blank: "TrimSpace t = [] \<Longrightarrow> bodyLines b (t # ts) = bodyLines b ts"
  by (simp add: bodyLines_def)

lemma bodyLines_header: "TrimSpace t \<noteq> [] \<Longrightarrow> bodyLines True (t # ts) = bodyLines False ts"
  by (simp add: bodyLines_def)

lemma bodyLines_line: "TrimSpace t \<noteq> [] \<Longrightarrow> bodyLines False (t # ts) = TrimSpace t # bodyLines False ts"
  by (simp add: bodyLines_def)

lemma parseRecords_Nil [simp]: "parseRecords d [] = []"
  by (simp add: parseRecords_def)

lemma parseRecords_bad: "length (SplitN2 l d) \<noteq> 2 \<Longrightarrow> parseRecords d (l # ls) = parseRecords d ls"
  by (simp add: parseRecords_def)

lemma parseRecords_good: "length (SplitN2 l d) = 2 \<Longrightarrow>
  parseRecords d (l # ls) = \<lparr>Account = SplitN2 l d ! 0, Hash = SplitN2 l d ! 1\<rparr> # parseRecords d ls"
  by (simp add: parseRecords_def)

lemma scanLoop_fst:
  "(limit > 0 \<longrightarrow> int (length users) < limit) \<Longrightarrow>
   fst (scanLoop d s limit toks fin fl users) =
     (let recs = parseRecords d (bodyLines (fl \<and> s) (map fst toks))
      in if limit > 0 then users @ take (nat limit - length users) recs else users @ recs)"
proof (induction toks arbitrary: fl users)
  case Nil
  then show ?case by simp
next
  case (Cons te toks)
  obtain t e where te: "te = (t, e)" by (cases te)
  show ?case
  proof (cases "TrimSpace t = []")
    case True
    then show ?thesis using Cons.IH[OF Cons.prems] by (simp add: te bodyLines_blank)
  next
    case nb: False
    show ?thesis
    proof (cases "fl \<and> s")
      case True
      then show ?thesis using nb Cons.IH[OF Cons.prems, of False]
        by (simp add: te bodyLines_header)
    next
      case nh: False
      show ?thesis
      proof (cases "length (SplitN2 (TrimSpace t) d) = 2")
        case False
        then show ?thesis using nb nh Cons.IH[OF Cons.prems, of False]
          by (auto simp add: te bodyLines_line parseRecords_bad Let_def)
      next
        case good: True
        let ?u = "\<lparr>Account = SplitN2 (TrimSpace t) d ! 0, Hash = SplitN2 (TrimSpace t) d ! 1\<rparr>"
        show ?thesis
        proof (cases "limit > 0 \<and> int (length (users @ [?u])) \<ge> limit")
          case True
          then have "nat limit - length users = 1" using Cons.prems by auto
          then show ?thesis using nb nh good True
            by (auto simp add: te bodyLines_line parseRecords_good Let_def)
        next
          case False
          then have p: "limit > 0 \<longrightarrow> int (length (users @ [?u])) < limit" by auto
          have "nat limit - length users = Suc (nat limit - length (users @ [?u]))" if "limit > 0"
            using that False by auto
          then show ?thesis using nb nh good False Cons.IH[OF p, of False]
            by (auto simp add: te bodyLines_line parseRecords_good Let_def)
        qed
      qed
    qed
  qed
qed

lemma find_map_Suc: "find P (map Suc xs) = map_option Suc (find (\<lambda>k. P (Suc k)) xs)"
  by (induction xs) auto

lemma find_upt_Suc:
  "find P [0..<Suc n] = (if P 0 then Some 0 else map_option Suc (find (\<lambda>k. P (Suc k)) [0..<n]))"
proof -
  have "[0..<Suc n] = 0 # map Suc [0..<n]"
    by (simp add: upt_conv_Cons map_Suc_upt del: upt_Suc)
  then show ?thesis by (simp add: find_map_Suc del: upt_Suc)
qed

lemma scanLoop_snd:
  "(limit > 0 \<longrightarrow> int (length users) < limit) \<Longrightarrow>
   snd (scanLoop d s limit toks fin fl users) =
     (case (if limit > 0 then
              find (\<lambda>k. nat limit \<le> length users +
                       length (parseRecords d (bodyLines (fl \<and> s) (take (Suc k) (map fst toks)))))
                [0..<length toks]
            else None) of
        None \<Rightarrow> fin
      | Some k \<Rightarrow> snd (toks ! k))"
proof (induction toks arbitrary: fl users)
  case Nil
  then show ?case by simp
next
  case (Cons te toks)
  obtain t e where te: "te = (t, e)" by (cases te)
  show ?case
  proof (cases "TrimSpace t = []")
    case True
    then show ?thesis using Cons.IH[OF Cons.prems, of fl] Cons.prems
      by (auto simp add: te bodyLines_blank find_upt_Suc simp del: upt_Suc split: option.splits)
  next
    case nb: False
    show ?thesis
    proof (cases "fl \<and> s")
      case True
      then show ?thesis using nb Cons.IH[OF Cons.prems, of False] Cons.prems
        by (auto simp add: te bodyLines_header find_upt_Suc simp del: upt_Suc split: option.splits)
    next
      case nh: False
      show ?thesis
      proof (cases "length (SplitN2 (TrimSpace t) d) = 2")
        case False
        then show ?thesis using nb nh Cons.IH[OF Cons.prems, of False] Cons.prems
          by (auto simp add: te bodyLines_line parseRecords_bad Let_def find_upt_Suc
                simp del: upt_Suc split: option.splits)
      next
        case good: True
        let ?u = "\<lparr>Account = SplitN2 (TrimSpace t) d ! 0, Hash = SplitN2 (TrimSpace t) d ! 1\<rparr>"
        show ?thesis
        proof (cases "limit > 0 \<and> int (length (users @ [?u])) \<ge> limit")
          case True
          then show ?thesis using nb nh good
            by (auto simp add: te bodyLines_line parseRecords_good Let_def find_upt_Suc
                  simp del: upt_Suc)
        next
          case False
          then have p: "limit > 0 \<longrightarrow> int (length (users @ [?u])) < limit" by auto
          show ?thesis using nb nh good False Cons.IH[OF p, of False]
            by (auto simp add: te bodyLines_line parseRecords_good Let_def find_upt_Suc
                  simp del: upt_Suc split: option.splits)
        qed
      qed
    qed
  qed
qed

lemma loadUsers_eq:
  "loadUsers fs f d s limit =
     (case fs f of
        Inl e \<Rightarrow> Inl OpenFailed
      | Inr sc \<Rightarrow>
          (case exitErr d s limit sc of
             Some e \<Rightarrow> Inl ReadFailed
           | None \<Rightarrow> Inr (recordsOf d s limit (map fst (tokens sc)))))"
proof (cases "fs f")
  case (Inl e)
  then show ?thesis by (simp add: loadUsers_def)
next
  case (Inr sc)
  have p: "limit > 0 \<longrightarrow> int (length ([]::User list)) < limit" by simp
  have 1: "snd (scanLoop d s limit (tokens sc) (final sc) True []) = exitErr d s limit sc"
    using scanLoop_snd[OF p, of d s "tokens sc" "final sc" True]
    by (simp add: exitErr_def recordsOf_def)
  have 2: "fst (scanLoop d s limit (tokens sc) (final sc) True []) = recordsOf d s limit (map fst (tokens sc))"
    using scanLoop_fst[OF p, of d s "tokens sc" "final sc" True]
    by (simp add: recordsOf_def Let_def)
  show ?thesis using Inr 1 2
    by (cases "scanLoop d s limit (tokens sc) (final sc) True []")
       (auto simp: loadUsers_def split: option.splits)
qed

section \<open>Lemmas on marking and matching\<close>

lemma lookup_markAll:
  "Mapping.lookup (markAll as m) a = (if a \<in> set as then Some True else Mapping.lookup m a)"
  unfolding markAll_def
  by (induction as arbitrary: m) (auto simp: lookup_update')

lemma markAll_append: "markAll (as @ bs) m = markAll bs (markAll as m)"
  by (simp add: markAll_def)

lemma update_exposed:
  "isExposed c a \<Longrightarrow> Mapping.update a True (exposedUsers c) = exposedUsers c"
  by (rule mapping_eqI) (auto simp: isExposed_def lookup_default_def lookup_update' split: option.splits)

lemma markExposed_userHashes [simp]:
  "userHashes (checker (markExposed as w)) = userHashes (checker w)"
  by (induction as w rule: markExposed.induct) (auto split: prod.splits)

lemma markExposed_requests [simp]:
  "requests (markExposed as w) = requests w"
  by (induction as w rule: markExposed.induct) (auto split: prod.splits)

lemma markExposed_exposedUsers:
  "exposedUsers (checker (markExposed as w)) = markAll as (exposedUsers (checker w))"
proof (induction as w rule: markExposed.induct)
  case (1 w)
  then show ?case by (simp add: markAll_def)
next
  case (2 account accounts w)
  show ?case
  proof (cases "isExposed (checker w) account")
    case True
    with 2 show ?thesis by (simp add: markAll_def update_exposed)
  next
    case False
    obtain rw err where wr: "Write (sink w) account = (rw, err)" by (cases "Write (sink w) account")
    from False wr 2(1)[OF False wr[symmetric]] show ?thesis
      by (simp add: markAll_def)
  qed
qed

lemma markExposed_append: "markExposed (as @ bs) w = markExposed bs (markExposed as w)"
  by (induction as w rule: markExposed.induct) (auto split: prod.splits)

lemma matchLine_eq:
  "matchLine uc prefix text w = markExposed (lineMatches uc (userHashes (checker w)) prefix text) w"
  by (auto simp: matchLine_def lineMatches_def Let_def lookup_default_def split: option.splits)

lemma fold_matchLine:
  "fold (matchLine uc prefix) ls w =
   markExposed (concat (map (lineMatches uc (userHashes (checker w)) prefix) ls)) w"
proof (induction ls arbitrary: w)
  case Nil
  then show ?case by simp
next
  case (Cons l ls)
  let ?w1 = "matchLine uc prefix l w"
  have a: "?w1 = markExposed (lineMatches uc (userHashes (checker w)) prefix l) w"
    by (rule matchLine_eq)
  have b: "userHashes (checker ?w1) = userHashes (checker w)"
    by (simp only: a markExposed_userHashes)
  have "fold (matchLine uc prefix) (l # ls) w = fold (matchLine uc prefix) ls ?w1"
    by simp
  also have "\<dots> = markExposed (concat (map (lineMatches uc (userHashes (checker w)) prefix) ls)) ?w1"
    by (simp only: Cons.IH[of ?w1] b)
  also have "\<dots> = markExposed (concat (map (lineMatches uc (userHashes (checker w)) prefix) (l # ls))) w"
    by (simp only: a markExposed_append list.map concat.simps)
  finally show ?case .
qed

section \<open>Invariants of the worker pool\<close>

declare pool_run.simps [simp del]

lemma runnable_mem: "i \<in> set (runnable ws) \<longleftrightarrow> i < length ws \<and> ws ! i \<noteq> Exited"
  by (auto simp: runnable_def)

lemma pool_run_inv:
  assumes "I p"
    and "\<And>q i. I q \<Longrightarrow> i < length (workers q) \<Longrightarrow> workers q ! i \<noteq> Exited \<Longrightarrow> I (workerStep uc api i q)"
  shows "I (pool_run uc api sched p)"
  using assms
proof (induction uc api sched p rule: pool_run.induct)
  case (1 uc api sched p)
  show ?case
  proof (cases "runnable (workers p)")
    case Nil
    then show ?thesis using "1.prems"(1) by (simp add: pool_run.simps[of uc api sched p])
  next
    case (Cons i "is")
    define k where "k = (i # is) ! (case sched of [] \<Rightarrow> 0 | n # ns \<Rightarrow> n mod length (i # is))"
    have "(case sched of [] \<Rightarrow> 0 | n # ns \<Rightarrow> n mod length (i # is)) < length (i # is)"
      by (cases sched) simp_all
    then have "k \<in> set (runnable (workers p))"
      unfolding k_def Cons by (rule nth_mem)
    then have "I (workerStep uc api k p)"
      using "1.prems" by (simp add: runnable_mem)
    from "1.IH"[OF Cons this[unfolded k_def] "1.prems"(2)]
    show ?thesis by (simp add: pool_run.simps[of uc api sched p] Cons)
  qed
qed

lemma pool_run_done: "runnable (workers (pool_run uc api sched p)) = []"
proof (induction uc api sched p rule: pool_run.induct)
  case (1 uc api sched p)
  show ?case
  proof (cases "runnable (workers p)")
    case Nil
    then show ?thesis by (simp add: pool_run.simps[of uc api sched p])
  next
    case (Cons i "is")
    from "1.IH"[OF Cons] show ?thesis by (simp add: pool_run.simps[of uc api sched p] Cons)
  qed
qed

lemma runnable_Nil: "runnable ws = [] \<longleftrightarrow> (\<forall>w \<in> set ws. w = Exited)"
  by (auto simp: runnable_def filter_empty_conv in_set_conv_nth) (metis nth_mem)

lemma workerStep_in:
  "i < length (workers p) \<Longrightarrow>
   workerStep uc api i p =
     (case workers p ! i of
        Exited \<Rightarrow> p
      | Idle \<Rightarrow>
          (case jobs p of
             [] \<Rightarrow> p\<lparr>workers := (workers p)[i := Exited]\<rparr>
           | prefix # rest \<Rightarrow>
               (let w0 = (shared p)\<lparr>requests := requests (shared p) @ [prefix]\<rparr> in
                case api prefix of
                  Inl err \<Rightarrow>
                    p\<lparr>shared := w0\<lparr>stdout := stdout w0 @ [QueryError prefix err]\<rparr>,
                      jobs := rest, workers := (workers p)[i := Busy prefix []]\<rparr>
                | Inr resp \<Rightarrow>
                    p\<lparr>shared := w0, jobs := rest,
                      workers := (workers p)[i := Busy prefix (SplitByte (CHR 0x0A) resp)]\<rparr>))
      | Busy prefix [] \<Rightarrow>
          p\<lparr>shared := (shared p)\<lparr>stdout := stdout (shared p) @
                 [Progress (completed p + 1) (total p)]\<rparr>,
            workers := (workers p)[i := Idle], completed := completed p + 1\<rparr>
      | Busy prefix (text # rest) \<Rightarrow>
          p\<lparr>shared := matchLine uc prefix text (shared p),
            workers := (workers p)[i := Busy prefix rest]\<rparr>)"
  by (simp add: workerStep_def)

lemma workerStep_length [simp]: "length (workers (workerStep uc api i p)) = length (workers p)"
  by (auto simp: workerStep_def Let_def split: worker.splits list.splits sum.splits)

lemma workerStep_userHashes [simp]:
  "userHashes (checker (shared (workerStep uc api i p))) = userHashes (checker (shared p))"
  by (auto simp: workerStep_def Let_def matchLine_eq split: worker.splits list.splits sum.splits)

lemma workerStep_requests:
  "requests (shared (workerStep uc api i p)) @ jobs (workerStep uc api i p) = requests (shared p) @ jobs p"
  by (auto simp: workerStep_def Let_def matchLine_eq split: worker.splits list.splits sum.splits)

lemma workerStep_alive:
  assumes "i < length (workers p)" "jobs p = [] \<or> (\<exists>w \<in> set (workers p). w \<noteq> Exited)"
  shows "jobs (workerStep uc api i p) = [] \<or> (\<exists>w \<in> set (workers (workerStep uc api i p)). w \<noteq> Exited)"
proof (cases "jobs (workerStep uc api i p) = []")
  case True
  then show ?thesis by simp
next
  case False
  show ?thesis
  proof (cases "workers p ! i = Exited")
    case True
    then have "workerStep uc api i p = p" by (simp add: workerStep_def)
    with assms False show ?thesis by simp
  next
    case ne: False
    have "workers (workerStep uc api i p) ! i \<noteq> Exited"
      using ne False assms(1)
      by (auto simp: workerStep_def Let_def split: worker.splits list.splits sum.splits)
    moreover have "i < length (workers (workerStep uc api i p))" using assms(1) by simp
    ultimately show ?thesis by (metis nth_mem)
  qed
qed

lemma set_concat_update:
  assumes "i < length ws"
  shows "set (concat (map f (ws[i := x]))) =
         set (concat (map f (take i ws))) \<union> set (f x) \<union> set (concat (map f (drop (Suc i) ws)))"
    and "set (concat (map f ws)) =
         set (concat (map f (take i ws))) \<union> set (f (ws ! i)) \<union> set (concat (map f (drop (Suc i) ws)))"
proof -
  show "set (concat (map f (ws[i := x]))) =
         set (concat (map f (take i ws))) \<union> set (f x) \<union> set (concat (map f (drop (Suc i) ws)))"
    using assms by (simp add: upd_conv_take_nth_drop Un_assoc)
  have "ws = take i ws @ ws ! i # drop (Suc i) ws"
    using assms by (simp add: id_take_nth_drop)
  then have "set (concat (map f ws)) = set (concat (map f (take i ws @ ws ! i # drop (Suc i) ws)))"
    by simp
  then show "set (concat (map f ws)) =
         set (concat (map f (take i ws))) \<union> set (f (ws ! i)) \<union> set (concat (map f (drop (Suc i) ws)))"
    by (simp add: Un_assoc)
qed

lemma markAll_cong:
  "set as \<union> {a. Mapping.lookup m a = Some True} = set bs \<union> {a. Mapping.lookup m' a = Some True} \<Longrightarrow>
   (\<And>a. a \<notin> set as \<Longrightarrow> a \<notin> set bs \<Longrightarrow> Mapping.lookup m a = Mapping.lookup m' a) \<Longrightarrow>
   markAll as m = markAll bs m'"
  apply (rule mapping_eqI)
  apply (auto simp: lookup_markAll)
  done

lemma workerStep_pending:
  assumes i: "i < length (workers p)" and uh: "userHashes (checker (shared p)) = uh"
  shows "markAll (pending uc api uh (workerStep uc api i p))
           (exposedUsers (checker (shared (workerStep uc api i p)))) =
         markAll (pending uc api uh p) (exposedUsers (checker (shared p)))"
proof (cases "workers p ! i")
  case Exited
  then show ?thesis by (simp add: workerStep_in[OF i])
next
  case Idle
  show ?thesis
  proof (cases "jobs p")
    case Nil
    have "set (pending uc api uh (workerStep uc api i p)) = set (pending uc api uh p)"
      using Idle Nil set_concat_update[OF i, of "workerPending uc uh"]
      by (simp add: workerStep_in[OF i] pending_def)
    moreover have "exposedUsers (checker (shared (workerStep uc api i p))) = exposedUsers (checker (shared p))"
      using Idle Nil by (simp add: workerStep_in[OF i])
    ultimately show ?thesis by (intro markAll_cong) auto
  next
    case (Cons j rest)
    have e: "exposedUsers (checker (shared (workerStep uc api i p))) = exposedUsers (checker (shared p))"
      using Idle Cons by (auto simp add: workerStep_in[OF i] Let_def split: sum.splits)
    have "set (pending uc api uh (workerStep uc api i p)) = set (pending uc api uh p)"
      using Idle Cons set_concat_update[OF i, of "workerPending uc uh"]
      by (auto simp add: workerStep_in[OF i] pending_def Let_def allMatches_def prefixMatches_def
            responseMatches_def split: sum.splits)
    with e show ?thesis by (intro markAll_cong) auto
  qed
next
  case (Busy j ls)
  show ?thesis
  proof (cases ls)
    case Nil
    have e: "exposedUsers (checker (shared (workerStep uc api i p))) = exposedUsers (checker (shared p))"
      using Busy Nil by (simp add: workerStep_in[OF i])
    have "set (pending uc api uh (workerStep uc api i p)) = set (pending uc api uh p)"
      using Busy Nil set_concat_update[OF i, of "workerPending uc uh"]
      by (simp add: workerStep_in[OF i] pending_def)
    with e show ?thesis by (intro markAll_cong) auto
  next
    case (Cons l rest)
    have e: "exposedUsers (checker (shared (workerStep uc api i p))) =
             markAll (lineMatches uc uh j l) (exposedUsers (checker (shared p)))"
      using Busy Cons uh by (simp add: workerStep_in[OF i] matchLine_eq markExposed_exposedUsers)
    have s: "set (pending uc api uh p) = set (pending uc api uh (workerStep uc api i p)) \<union> set (lineMatches uc uh j l)"
      using Busy Cons set_concat_update[OF i, of "workerPending uc uh"]
      by (auto simp add: workerStep_in[OF i] pending_def)
    show ?thesis
      unfolding e
      by (rule mapping_eqI) (auto simp: lookup_markAll s)
  qed
qed

lemma pool_run_exposedUsers:
  assumes "workers p \<noteq> []" "\<forall>w \<in> set (workers p). w = Idle"
  shows "exposedUsers (checker (shared (pool_run uc api sched p))) =
         markAll (allMatches uc api (userHashes (checker (shared p))) (jobs p))
           (exposedUsers (checker (shared p)))"
proof -
  define uh where "uh = userHashes (checker (shared p))"
  define target where "target = markAll (pending uc api uh p) (exposedUsers (checker (shared p)))"
  define I where "I q \<longleftrightarrow>
      userHashes (checker (shared q)) = uh \<and>
      markAll (pending uc api uh q) (exposedUsers (checker (shared q))) = target \<and>
      length (workers q) = length (workers p) \<and>
      (jobs q = [] \<or> (\<exists>w \<in> set (workers q). w \<noteq> Exited))" for q
  have "I p"
    using assms by (cases "workers p") (auto simp: I_def uh_def target_def)
  moreover have "I (workerStep uc api i q)" if "I q" "i < length (workers q)" for q i
    using that workerStep_pending[of i q uh uc api] workerStep_alive[of i q uc api]
    by (simp add: I_def)
  ultimately have fin: "I (pool_run uc api sched p)"
    by (rule pool_run_inv)
  let ?q = "pool_run uc api sched p"
  have ex: "\<forall>w \<in> set (workers ?q). w = Exited"
    using pool_run_done[of uc api sched p] by (simp add: runnable_Nil)
  moreover have "workers ?q \<noteq> []" using fin assms(1) by (auto simp: I_def)
  ultimately have j: "jobs ?q = []" using fin by (auto simp: I_def)
  have "concat (map (workerPending uc uh) (workers ?q)) = []"
    using ex by (induction "workers ?q") auto
  with j have "pending uc api uh ?q = []" by (simp add: pending_def allMatches_def)
  with fin have t: "exposedUsers (checker (shared ?q)) = target"
    by (simp add: I_def markAll_def)
  have c0: "concat (map (workerPending uc uh) (workers p)) = []"
    using assms(2) by (induction "workers p") auto
  have "pending uc api uh p = allMatches uc api uh (jobs p)"
    unfolding pending_def c0 by simp
  then show ?thesis
    unfolding t target_def uh_def by simp
qed

lemma findings_append [simp]: "findings (xs @ ys) = findings xs @ findings ys"
  by (induction xs rule: findings.induct) auto

lemma writeErrors_append [simp]: "writeErrors (xs @ ys) = writeErrors xs @ writeErrors ys"
  by (induction xs rule: writeErrors.induct) auto

lemma findings_err [simp]: "findings (case err of None \<Rightarrow> [] | Some e \<Rightarrow> [WriteError e]) = []"
  by (cases err) auto

lemma Write_lines:
  "Write rw a = (rw', err) \<Longrightarrow>
   (case writer rw' of None \<Rightarrow> [] | Some io \<Rightarrow> written io) =
   (case writer rw of None \<Rightarrow> [] | Some io \<Rightarrow> written io) @
     (if enabled rw \<and> writer rw \<noteq> None \<and> err = None then [a] else [])"
  by (auto simp: Write_def Fprintln_def Let_def split: option.splits list.splits if_splits prod.splits)

lemma Write_count:
  "Write rw a = (rw', err) \<Longrightarrow> enabled rw \<Longrightarrow> writer rw \<noteq> None \<Longrightarrow>
   enabled rw' \<and> writer rw' \<noteq> None \<and> count rw' = (if err = None then count rw + 1 else count rw)"
  by (auto simp: Write_def Fprintln_def Let_def split: option.splits list.splits if_splits prod.splits)

lemma isExposed_update:
  "isExposed (c\<lparr>exposedUsers := Mapping.update a True (exposedUsers c)\<rparr>) b = (b = a \<or> isExposed c b)"
  by (auto simp: isExposed_def lookup_default_update')

lemma markExposed_exposureInv: "exposureInv w \<Longrightarrow> exposureInv (markExposed as w)"
proof (induction as w rule: markExposed.induct)
  case (1 w)
  then show ?case by simp
next
  case (2 account accounts w)
  show ?case
  proof (cases "isExposed (checker w) account")
    case True
    with 2 show ?thesis by simp
  next
    case False
    obtain rw err where wr: "Write (sink w) account = (rw, err)" by (cases "Write (sink w) account")
    let ?w1 = "w\<lparr>checker := (checker w)\<lparr>exposedUsers := Mapping.update account True (exposedUsers (checker w))\<rparr>,
               sink := rw,
               stdout := stdout w @ [Exposed account] @ (case err of None \<Rightarrow> [] | Some e \<Rightarrow> [WriteError e])\<rparr>"
    have nf: "account \<notin> set (findings (stdout w))"
      using False "2.prems" by (auto simp: exposureInv_def list_all_iff)
    then have ns: "account \<notin> set (sinkLines w)"
      using "2.prems" by (auto simp: exposureInv_def list_all_iff)
    have "exposureInv ?w1"
      using "2.prems" nf ns Write_lines[OF wr]
      by (auto simp: exposureInv_def list_all_iff sinkLines_def isExposed_update)
    from "2.IH"(1)[OF False wr[symmetric] refl this] False wr show ?thesis by simp
  qed
qed

lemma isExposed_markExposed:
  "isExposed (checker (markExposed as w)) a \<longleftrightarrow> a \<in> set as \<or> isExposed (checker w) a"
  by (simp add: isExposed_def lookup_default_def markExposed_exposedUsers lookup_markAll)

lemma exposureInv_cong:
  "checker w' = checker w \<Longrightarrow> sink w' = sink w \<Longrightarrow>
   findings (stdout w') = findings (stdout w) \<Longrightarrow> exposureInv w' = exposureInv w"
  by (simp add: exposureInv_def sinkLines_def)

lemma workerStep_shared:
  "(\<exists>j l. shared (workerStep uc api i p) = matchLine uc j l (shared p)) \<or>
   (checker (shared (workerStep uc api i p)) = checker (shared p) \<and>
    sink (shared (workerStep uc api i p)) = sink (shared p) \<and>
    findings (stdout (shared (workerStep uc api i p))) = findings (stdout (shared p)) \<and>
    writeErrors (stdout (shared (workerStep uc api i p))) = writeErrors (stdout (shared p)))"
  by (auto simp: workerStep_def Let_def split: worker.splits list.splits sum.splits)

lemma workerStep_exposureInv:
  assumes "exposureInv (shared p)"
  shows "exposureInv (shared (workerStep uc api i p))"
  using workerStep_shared[of uc api i p]
proof
  assume "\<exists>j l. shared (workerStep uc api i p) = matchLine uc j l (shared p)"
  then show ?thesis using assms by (auto simp: matchLine_eq markExposed_exposureInv)
next
  assume "checker (shared (workerStep uc api i p)) = checker (shared p) \<and>
    sink (shared (workerStep uc api i p)) = sink (shared p) \<and>
    findings (stdout (shared (workerStep uc api i p))) = findings (stdout (shared p)) \<and>
    writeErrors (stdout (shared (workerStep uc api i p))) = writeErrors (stdout (shared p))"
  then show ?thesis using assms exposureInv_cong[of "shared (workerStep uc api i p)" "shared p"] by simp
qed

lemma workerStep_monotone:
  "isExposed (checker (shared p)) a \<Longrightarrow> isExposed (checker (shared (workerStep uc api i p))) a"
  by (auto simp: workerStep_def Let_def matchLine_eq isExposed_markExposed
        split: worker.splits list.splits sum.splits)

lemma pool_run_jobs:
  assumes "workers p \<noteq> []" "jobs p = [] \<or> (\<exists>w \<in> set (workers p). w \<noteq> Exited)"
  shows "jobs (pool_run uc api sched p) = []"
proof -
  define I where "I q \<longleftrightarrow> length (workers q) = length (workers p) \<and>
      (jobs q = [] \<or> (\<exists>w \<in> set (workers q). w \<noteq> Exited))" for q :: pool
  have "I p" using assms by (simp add: I_def)
  moreover have "I (workerStep uc api i q)" if "I q" "i < length (workers q)" for q i
    using that workerStep_alive[of i q uc api] by (simp add: I_def)
  ultimately have fin: "I (pool_run uc api sched p)"
    by (rule pool_run_inv)
  let ?q = "pool_run uc api sched p"
  have "\<forall>w \<in> set (workers ?q). w = Exited"
    using pool_run_done[of uc api sched p] by (simp add: runnable_Nil)
  moreover have "workers ?q \<noteq> []" using fin assms(1) by (auto simp: I_def)
  ultimately show ?thesis using fin by (auto simp: I_def)
qed

lemma pool_run_requests:
  assumes "workers p \<noteq> []" "jobs p = [] \<or> (\<exists>w \<in> set (workers p). w \<noteq> Exited)"
  shows "requests (shared (pool_run uc api sched p)) = requests (shared p) @ jobs p"
proof -
  have "requests (shared (pool_run uc api sched p)) @ jobs (pool_run uc api sched p) =
        requests (shared p) @ jobs p"
    by (rule pool_run_inv[where I = "\<lambda>q. requests (shared q) @ jobs q = requests (shared p) @ jobs p"])
       (simp_all add: workerStep_requests)
  then show ?thesis using pool_run_jobs[OF assms] by simp
qed

lemma writeErrors_err [simp]:
  "length (writeErrors (case err of None \<Rightarrow> [] | Some e \<Rightarrow> [WriteError e])) = (if err = None then 0 else 1)"
  by (cases err) auto

lemma markExposed_countInv: "countInv c0 w \<Longrightarrow> countInv c0 (markExposed as w)"
proof (induction as w rule: markExposed.induct)
  case (1 w)
  then show ?case by simp
next
  case (2 account accounts w)
  show ?case
  proof (cases "isExposed (checker w) account")
    case True
    with 2 show ?thesis by simp
  next
    case False
    obtain rw err where wr: "Write (sink w) account = (rw, err)" by (cases "Write (sink w) account")
    let ?w1 = "w\<lparr>checker := (checker w)\<lparr>exposedUsers := Mapping.update account True (exposedUsers (checker w))\<rparr>,
               sink := rw,
               stdout := stdout w @ [Exposed account] @ (case err of None \<Rightarrow> [] | Some e \<Rightarrow> [WriteError e])\<rparr>"
    have "countInv c0 ?w1"
      using "2.prems" Write_count[OF wr]
      by (auto simp: countInv_def)
    from "2.IH"(1)[OF False wr[symmetric] refl this] False wr show ?thesis by simp
  qed
qed

lemma markExposed_keysInv: "keysInv w \<Longrightarrow> keysInv (markExposed as w)"
proof (induction as w rule: markExposed.induct)
  case (1 w)
  then show ?case by simp
next
  case (2 account accounts w)
  show ?case
  proof (cases "isExposed (checker w) account")
    case True
    with 2 show ?thesis by simp
  next
    case False
    obtain rw err where wr: "Write (sink w) account = (rw, err)" by (cases "Write (sink w) account")
    let ?w1 = "w\<lparr>checker := (checker w)\<lparr>exposedUsers := Mapping.update account True (exposedUsers (checker w))\<rparr>,
               sink := rw,
               stdout := stdout w @ [Exposed account] @ (case err of None \<Rightarrow> [] | Some e \<Rightarrow> [WriteError e])\<rparr>"
    have "keysInv ?w1"
      using "2.prems" by (auto simp: keysInv_def)
    from "2.IH"(1)[OF False wr[symmetric] refl this] False wr show ?thesis by simp
  qed
qed

lemma pool_run_world_inv:
  assumes "I (shared p)"
    and "\<And>w j l. I w \<Longrightarrow> I (matchLine uc j l w)"
    and "\<And>w w'. I w \<Longrightarrow> exposedUsers (checker w') = exposedUsers (checker w) \<Longrightarrow> sink w' = sink w \<Longrightarrow>
            findings (stdout w') = findings (stdout w) \<Longrightarrow>
            writeErrors (stdout w') = writeErrors (stdout w) \<Longrightarrow> I w'"
  shows "I (shared (pool_run uc api sched p))"
proof (rule pool_run_inv[where I = "\<lambda>q. I (shared q)"])
  show "I (shared p)" by fact
next
  fix q :: pool and i :: nat
  assume q: "I (shared q)"
  from workerStep_shared[of uc api i q] show "I (shared (workerStep uc api i q))"
  proof
    assume "\<exists>j l. shared (workerStep uc api i q) = matchLine uc j l (shared q)"
    with q assms(2) show ?thesis by auto
  next
    assume "checker (shared (workerStep uc api i q)) = checker (shared q) \<and>
      sink (shared (workerStep uc api i q)) = sink (shared q) \<and>
      findings (stdout (shared (workerStep uc api i q))) = findings (stdout (shared q)) \<and>
      writeErrors (stdout (shared (workerStep uc api i q))) = writeErrors (stdout (shared q))"
    with q assms(3)[of "shared q" "shared (workerStep uc api i q)"] show ?thesis by simp
  qed
qed

lemma CheckFile_Inl:
  "loadUsers fs f d s l = Inl e \<Longrightarrow> CheckFile uc fs api sched f d s n l w = (w, 0, Some e)"
  by (simp add: CheckFile_def)

lemma CheckFile_Inr:
  "loadUsers fs f d s l = Inr users \<Longrightarrow> buildHashIndex uc (checker w) users = (c, ps) \<Longrightarrow>
   w1 = w\<lparr>checker := c, stdout := stdout w @ [Found (length users) (length ps)]\<rparr> \<Longrightarrow>
   w2 = (if ps = [] then w1 else queryPrefixesConcurrently uc api sched ps n w1) \<Longrightarrow>
   CheckFile uc fs api sched f d s n l w = (w2, int (Mapping.size (exposedUsers (checker w2))), None)"
  by (simp add: CheckFile_def Let_def)

lemma CheckFile_world_inv:
  assumes "I w"
    and m: "\<And>w j l. I w \<Longrightarrow> I (matchLine uc j l w)"
    and u: "\<And>w w'. I w \<Longrightarrow> exposedUsers (checker w') = exposedUsers (checker w) \<Longrightarrow> sink w' = sink w \<Longrightarrow>
            findings (stdout w') = findings (stdout w) \<Longrightarrow>
            writeErrors (stdout w') = writeErrors (stdout w) \<Longrightarrow> I w'"
  shows "I (fst (CheckFile uc fs api sched f d s n l w))"
proof (cases "loadUsers fs f d s l")
  case (Inl e)
  then show ?thesis using assms(1) by (simp add: CheckFile_def)
next
  case (Inr users)
  obtain c ps where b: "buildHashIndex uc (checker w) users = (c, ps)"
    by (cases "buildHashIndex uc (checker w) users")
  then have ce: "exposedUsers c = exposedUsers (checker w)"
    by (auto simp: buildHashIndex_def split: prod.splits)
  let ?w1 = "w\<lparr>checker := c, stdout := stdout w @ [Found (length users) (length ps)]\<rparr>"
  have 1: "I ?w1" using u[OF assms(1), of ?w1] ce by simp
  show ?thesis
  proof (cases "ps = []")
    case True
    then show ?thesis using CheckFile_Inr[OF Inr b refl refl, of api sched n] 1 by simp
  next
    case False
    let ?n = "if n < 1 then 1 else n"
    let ?p0 = "\<lparr>shared = ?w1, jobs = ps, workers = replicate (nat ?n) Idle,
                completed = 0, total = int (length ps)\<rparr>"
    have "I (shared (pool_run uc api sched ?p0))"
      by (rule pool_run_world_inv[where I = I]) (simp_all add: 1 m u)
    then have "I (queryPrefixesConcurrently uc api sched ps n ?w1)"
      unfolding queryPrefixesConcurrently_def Let_def
      by (rule u) simp_all
    then show ?thesis using CheckFile_Inr[OF Inr b refl refl, of api sched n] False by simp
  qed
qed

lemma exposureInv_stable:
  "exposureInv w \<Longrightarrow> exposedUsers (checker w') = exposedUsers (checker w) \<Longrightarrow> sink w' = sink w \<Longrightarrow>
   findings (stdout w') = findings (stdout w) \<Longrightarrow> exposureInv w'"
  by (simp add: exposureInv_def sinkLines_def isExposed_def[abs_def])

lemma countInv_stable:
  "countInv c0 w \<Longrightarrow> sink w' = sink w \<Longrightarrow> findings (stdout w') = findings (stdout w) \<Longrightarrow>
   writeErrors (stdout w') = writeErrors (stdout w) \<Longrightarrow> countInv c0 w'"
  by (simp add: countInv_def)

lemma keysInv_stable:
  "keysInv w \<Longrightarrow> exposedUsers (checker w') = exposedUsers (checker w) \<Longrightarrow>
   findings (stdout w') = findings (stdout w) \<Longrightarrow> keysInv w'"
  by (simp add: keysInv_def)

lemma CheckFile_exposureInv:
  "exposureInv w \<Longrightarrow> exposureInv (fst (CheckFile uc fs api sched f d s n l w))"
  by (rule CheckFile_world_inv) (auto simp: matchLine_eq markExposed_exposureInv intro: exposureInv_stable)

lemma CheckFile_countInv:
  "countInv c0 w \<Longrightarrow> countInv c0 (fst (CheckFile uc fs api sched f d s n l w))"
  by (rule CheckFile_world_inv) (auto simp: matchLine_eq markExposed_countInv intro: countInv_stable)

lemma CheckFile_keysInv:
  "keysInv w \<Longrightarrow> keysInv (fst (CheckFile uc fs api sched f d s n l w))"
  by (rule CheckFile_world_inv) (auto simp: matchLine_eq markExposed_keysInv intro: keysInv_stable)

lemma CheckFile_monotone:
  "isExposed (checker w) a \<Longrightarrow> isExposed (checker (fst (CheckFile uc fs api sched f d s n l w))) a"
proof (rule CheckFile_world_inv[where I = "\<lambda>w. isExposed (checker w) a"])
  show "isExposed (checker w) a \<Longrightarrow> isExposed (checker w) a" .
next
  fix w j l
  show "isExposed (checker w) a \<Longrightarrow> isExposed (checker (matchLine uc j l w)) a"
    by (simp add: matchLine_eq isExposed_markExposed)
next
  fix w w' :: world
  show "isExposed (checker w) a \<Longrightarrow> exposedUsers (checker w') = exposedUsers (checker w) \<Longrightarrow>
        isExposed (checker w') a"
    by (simp add: isExposed_def)
qed

section \<open>Letter case\<close>







subsection \<open>Strings of ASCII bytes\<close>










section \<open>A pool of one worker is the worker's loop\<close>

lemma runnable_single [simp]:
  "runnable [Idle] = [0]" "runnable [Busy j ls] = [0]" "runnable [Exited] = []"
  by (simp_all add: runnable_def)

lemma pool_run_single_step:
  "workers p = [v] \<Longrightarrow> v \<noteq> Exited \<Longrightarrow>
   pool_run uc api sched p = pool_run uc api (tl sched) (workerStep uc api 0 p)"
proof -
  assume a: "workers p = [v]" "v \<noteq> Exited"
  then have r: "runnable (workers p) = [0]" by (simp add: runnable_def)
  have "[0::nat] ! (case sched of [] \<Rightarrow> 0 | n # ns \<Rightarrow> n mod length [0::nat]) = 0"
    by (cases sched) simp_all
  then show ?thesis
    by (subst pool_run.simps) (simp add: r)
qed

lemma pool_run_single_exited:
  "workers p = [Exited] \<Longrightarrow> pool_run uc api sched p = p"
  by (simp add: pool_run.simps[of uc api sched p])

lemma pool_run_busy:
  "workers p = [Busy j ls] \<Longrightarrow>
   \<exists>sched'. pool_run uc api sched p =
     pool_run uc api sched'
       (p\<lparr>shared := (fold (matchLine uc j) ls (shared p))
                \<lparr>stdout := stdout (fold (matchLine uc j) ls (shared p)) @
                   [Progress (completed p + 1) (total p)]\<rparr>,
          workers := [Idle], completed := completed p + 1\<rparr>)"
proof (induction ls arbitrary: p sched)
  case Nil
  have "workerStep uc api 0 p =
        p\<lparr>shared := (shared p)\<lparr>stdout := stdout (shared p) @ [Progress (completed p + 1) (total p)]\<rparr>,
          workers := [Idle], completed := completed p + 1\<rparr>"
    using Nil by (simp add: workerStep_def)
  then show ?case using pool_run_single_step[OF Nil, of uc api sched] by auto
next
  case (Cons l ls)
  let ?p1 = "workerStep uc api 0 p"
  have s: "?p1 = p\<lparr>shared := matchLine uc j l (shared p), workers := [Busy j ls]\<rparr>"
    using Cons.prems by (simp add: workerStep_def)
  then have w1: "workers ?p1 = [Busy j ls]" by simp
  from Cons.IH[OF w1, of "tl sched"] obtain sched' where
    "pool_run uc api (tl sched) ?p1 =
     pool_run uc api sched'
       (?p1\<lparr>shared := (fold (matchLine uc j) ls (shared ?p1))
                \<lparr>stdout := stdout (fold (matchLine uc j) ls (shared ?p1)) @
                   [Progress (completed ?p1 + 1) (total ?p1)]\<rparr>,
          workers := [Idle], completed := completed ?p1 + 1\<rparr>)"
    by blast
  then show ?case
    using pool_run_single_step[OF Cons.prems, of uc api sched] by (auto simp: s)
qed

lemma pool_run_one_worker:
  "workers p = [Idle] \<Longrightarrow>
   shared (pool_run uc api sched p) = workerLoop uc api (total p) (completed p) (jobs p) (shared p)"
proof (induction "jobs p" arbitrary: p sched)
  case Nil
  have "workerStep uc api 0 p = p\<lparr>workers := [Exited]\<rparr>"
    using Nil by (simp add: workerStep_def)
  then show ?case
    using pool_run_single_step[OF Nil.prems, of uc api sched] Nil.hyps[symmetric]
    by (simp add: pool_run_single_exited)
next
  case (Cons j js)
  let ?w0 = "(shared p)\<lparr>requests := requests (shared p) @ [j]\<rparr>"
  define w1 where "w1 = (case api j of Inl err \<Rightarrow> ?w0\<lparr>stdout := stdout ?w0 @ [QueryError j err]\<rparr> | Inr resp \<Rightarrow> ?w0)"
  define ls where "ls = (case api j of Inl err \<Rightarrow> [] | Inr resp \<Rightarrow> SplitByte (CHR 0x0A) resp)"
  let ?p1 = "workerStep uc api 0 p"
  have s: "?p1 = p\<lparr>shared := w1, jobs := js, workers := [Busy j ls]\<rparr>"
    using Cons.prems Cons.hyps(2)[symmetric]
    by (auto simp: workerStep_def w1_def ls_def Let_def split: sum.splits)
  have c: "checkPrefixMatches uc api j (shared p) = fold (matchLine uc j) ls w1"
    by (auto simp: checkPrefixMatches_def w1_def ls_def Let_def split: sum.splits)
  have w1: "workers ?p1 = [Busy j ls]" using s by simp
  from pool_run_busy[OF w1, of uc api "tl sched"] obtain sched' where
    r: "pool_run uc api (tl sched) ?p1 =
     pool_run uc api sched'
       (?p1\<lparr>shared := (fold (matchLine uc j) ls (shared ?p1))
                \<lparr>stdout := stdout (fold (matchLine uc j) ls (shared ?p1)) @
                   [Progress (completed ?p1 + 1) (total ?p1)]\<rparr>,
          workers := [Idle], completed := completed ?p1 + 1\<rparr>)"
    by blast
  let ?p2 = "?p1\<lparr>shared := (fold (matchLine uc j) ls (shared ?p1))
                \<lparr>stdout := stdout (fold (matchLine uc j) ls (shared ?p1)) @
                   [Progress (completed ?p1 + 1) (total ?p1)]\<rparr>,
          workers := [Idle], completed := completed ?p1 + 1\<rparr>"
  have j2: "js = jobs ?p2" using s by simp
  have "shared (pool_run uc api sched p) = shared (pool_run uc api sched' ?p2)"
    using pool_run_single_step[OF Cons.prems, of uc api sched] r by simp
  also have "\<dots> = workerLoop uc api (total ?p2) (completed ?p2) (jobs ?p2) (shared ?p2)"
    by (rule Cons.hyps(1)[OF j2]) simp
  also have "\<dots> = workerLoop uc api (total p) (completed p) (jobs p) (shared p)"
    using Cons.hyps(2)[symmetric] by (simp add: s c Let_def)
  finally show ?case .
qed

lemma workerStep_total [simp]: "total (workerStep uc api i p) = total p"
  by (auto simp: workerStep_def Let_def split: worker.splits list.splits sum.splits)

lemma pool_run_total: "total (pool_run uc api sched p) = total p"
  by (rule pool_run_inv[where I = "\<lambda>q. total q = total p"]) simp_all

text \<open>With one worker, and with any number below one, the run is the loop of the source.\<close>

lemma queryPrefixesConcurrently_one_worker:
  "n \<le> 1 \<Longrightarrow>
   queryPrefixesConcurrently uc api sched prefixes n w =
     (workerLoop uc api (int (length prefixes)) 0 prefixes w)
       \<lparr>stdout := stdout (workerLoop uc api (int (length prefixes)) 0 prefixes w) @
          [Queried (int (length prefixes)) 1]\<rparr>"
proof -
  assume n: "n \<le> 1"
  let ?p0 = "\<lparr>shared = w, jobs = prefixes, workers = [Idle], completed = 0,
              total = int (length prefixes)\<rparr>"
  have r: "replicate (nat (if n < 1 then 1 else n)) Idle = [Idle]"
    using n by (cases "n < 1") auto
  have "shared (pool_run uc api sched ?p0) = workerLoop uc api (int (length prefixes)) 0 prefixes w"
    using pool_run_one_worker[of ?p0 uc api sched] by simp
  moreover have "(if n < 1 then 1 else n) = 1" using n by auto
  ultimately show ?thesis
    unfolding queryPrefixesConcurrently_def Let_def r
    by (simp add: pool_run_total)
qed

section \<open>The result of a whole run\<close>

lemma keys_markAll: "Mapping.keys (markAll as m) = set as \<union> Mapping.keys m"
  unfolding keys_dom_lookup by (auto simp: lookup_markAll dom_def)

lemma markExposed_disabled:
  "\<not> enabled (sink w) \<Longrightarrow> sink (markExposed as w) = sink w"
proof (induction as w rule: markExposed.induct)
  case (1 w)
  then show ?case by simp
next
  case (2 account accounts w)
  show ?case
  proof (cases "isExposed (checker w) account")
    case True
    with 2 show ?thesis by simp
  next
    case False
    have wr: "Write (sink w) account = (sink w, None)" using "2.prems" by (simp add: Write_def)
    from "2.IH"(1)[OF False wr[symmetric] refl] "2.prems" False wr show ?thesis by simp
  qed
qed

lemma qpc_exposedUsers:
  "exposedUsers (checker (queryPrefixesConcurrently uc api sched ps n w)) =
   markAll (allMatches uc api (userHashes (checker w)) ps) (exposedUsers (checker w))"
proof -
  let ?n = "if n < 1 then 1 else n"
  let ?p0 = "\<lparr>shared = w, jobs = ps, workers = replicate (nat ?n) Idle,
              completed = 0, total = int (length ps)\<rparr>"
  have "workers ?p0 \<noteq> []" "\<forall>v \<in> set (workers ?p0). v = Idle" by auto
  from pool_run_exposedUsers[OF this, of uc api sched] show ?thesis
    by (simp add: queryPrefixesConcurrently_def Let_def)
qed

lemma qpc_requests:
  "requests (queryPrefixesConcurrently uc api sched ps n w) = requests w @ ps"
proof -
  let ?n = "if n < 1 then 1 else n"
  let ?p0 = "\<lparr>shared = w, jobs = ps, workers = replicate (nat ?n) Idle,
              completed = 0, total = int (length ps)\<rparr>"
  have "workers ?p0 \<noteq> []" by auto
  moreover have "jobs ?p0 = [] \<or> (\<exists>v \<in> set (workers ?p0). v \<noteq> Exited)" by auto
  ultimately have "requests (shared (pool_run uc api sched ?p0)) = requests (shared ?p0) @ jobs ?p0"
    by (rule pool_run_requests)
  then show ?thesis
    by (simp add: queryPrefixesConcurrently_def Let_def)
qed

lemma buildHashIndex_fst:
  "userHashes (fst (buildHashIndex uc c users)) = fst (indexLoop uc users (userHashes c) Mapping.empty [])"
  "exposedUsers (fst (buildHashIndex uc c users)) = exposedUsers c"
  "snd (buildHashIndex uc c users) = snd (indexLoop uc users (userHashes c) Mapping.empty [])"
  by (simp_all add: buildHashIndex_def split: prod.splits)

lemma CheckFile_result:
  assumes "loadUsers fs f d s l = Inr users"
  shows "exposedUsers (checker (fst (CheckFile uc fs api sched f d s n l w))) =
           markAll (allMatches uc api (userHashes (fst (buildHashIndex uc (checker w) users)))
                      (snd (buildHashIndex uc (checker w) users)))
             (exposedUsers (checker w))"
    and "requests (fst (CheckFile uc fs api sched f d s n l w)) =
           requests w @ snd (buildHashIndex uc (checker w) users)"
    and "snd (CheckFile uc fs api sched f d s n l w) =
           (int (Mapping.size (exposedUsers (checker (fst (CheckFile uc fs api sched f d s n l w))))), None)"
proof -
  obtain c ps where b: "buildHashIndex uc (checker w) users = (c, ps)"
    by (cases "buildHashIndex uc (checker w) users")
  have ce: "exposedUsers c = exposedUsers (checker w)"
    using buildHashIndex_fst(2)[of uc "checker w" users] b by simp
  let ?w1 = "w\<lparr>checker := c, stdout := stdout w @ [Found (length users) (length ps)]\<rparr>"
  let ?w2 = "if ps = [] then ?w1 else queryPrefixesConcurrently uc api sched ps n ?w1"
  have cf: "CheckFile uc fs api sched f d s n l w =
            (?w2, int (Mapping.size (exposedUsers (checker ?w2))), None)"
    by (rule CheckFile_Inr[OF assms b refl refl])
  show "exposedUsers (checker (fst (CheckFile uc fs api sched f d s n l w))) =
           markAll (allMatches uc api (userHashes (fst (buildHashIndex uc (checker w) users)))
                      (snd (buildHashIndex uc (checker w) users)))
             (exposedUsers (checker w))"
    unfolding cf b by (simp add: qpc_exposedUsers ce allMatches_def markAll_def)
  show "requests (fst (CheckFile uc fs api sched f d s n l w)) =
           requests w @ snd (buildHashIndex uc (checker w) users)"
    unfolding cf b by (simp add: qpc_requests)
  show "snd (CheckFile uc fs api sched f d s n l w) =
           (int (Mapping.size (exposedUsers (checker (fst (CheckFile uc fs api sched f d s n l w))))), None)"
    unfolding cf by simp
qed

lemma allMatches_subset:
  "a \<in> set (allMatches uc api uh ps) \<Longrightarrow> \<exists>h xs. Mapping.lookup uh h = Some xs \<and> a \<in> set xs"
proof -
  assume "a \<in> set (allMatches uc api uh ps)"
  then obtain h where "a \<in> set (Mapping.lookup_default [] uh h)"
    by (auto simp: allMatches_def prefixMatches_def responseMatches_def lineMatches_def Let_def
          split: sum.splits if_splits)
  then show ?thesis
    by (cases "Mapping.lookup uh h") (auto simp: lookup_default_def)
qed

lemma markExposed_findingsInv: "findingsInv w \<Longrightarrow> findingsInv (markExposed as w)"
proof (induction as w rule: markExposed.induct)
  case (1 w)
  then show ?case by simp
next
  case (2 account accounts w)
  show ?case
  proof (cases "isExposed (checker w) account")
    case True
    with 2 show ?thesis by simp
  next
    case False
    obtain rw err where wr: "Write (sink w) account = (rw, err)" by (cases "Write (sink w) account")
    let ?w1 = "w\<lparr>checker := (checker w)\<lparr>exposedUsers := Mapping.update account True (exposedUsers (checker w))\<rparr>,
               sink := rw,
               stdout := stdout w @ [Exposed account] @ (case err of None \<Rightarrow> [] | Some e \<Rightarrow> [WriteError e])\<rparr>"
    have nf: "account \<notin> set (findings (stdout w))"
      using False "2.prems" by (auto simp: findingsInv_def list_all_iff)
    have "findingsInv ?w1"
      using "2.prems" nf
      by (auto simp: findingsInv_def list_all_iff isExposed_update)
    from "2.IH"(1)[OF False wr[symmetric] refl this] False wr show ?thesis by simp
  qed
qed

lemma findingsInv_stable:
  "findingsInv w \<Longrightarrow> exposedUsers (checker w') = exposedUsers (checker w) \<Longrightarrow>
   findings (stdout w') = findings (stdout w) \<Longrightarrow> findingsInv w'"
  by (simp add: findingsInv_def isExposed_def[abs_def])

lemma CheckFile_findingsInv:
  "findingsInv w \<Longrightarrow> findingsInv (fst (CheckFile uc fs api sched f d s n l w))"
  by (rule CheckFile_world_inv) (auto simp: matchLine_eq markExposed_findingsInv intro: findingsInv_stable)

lemma CheckFile_sink_disabled:
  "\<not> enabled rw0 \<Longrightarrow> sink w = rw0 \<Longrightarrow> sink (fst (CheckFile uc fs api sched f d s n l w)) = rw0"
  by (rule CheckFile_world_inv[where I = "\<lambda>w. sink w = rw0"])
     (auto simp: matchLine_eq markExposed_disabled)

lemma recordsOf_limit:
  "recordsOf d s limit texts =
     (if limit > 0 then take (nat limit) (recordsOf d s 0 texts) else recordsOf d s 0 texts)"
  by (simp add: recordsOf_def Let_def)

lemma exitErr_readable: "readable sc \<Longrightarrow> exitErr d s limit sc = None"
proof -
  assume r: "readable sc"
  show ?thesis
  proof (cases "if limit > 0 then
              find (\<lambda>k. nat limit \<le> length (recordsOf d s 0 (take (Suc k) (map fst (tokens sc)))))
                [0..<length (tokens sc)]
            else None")
    case None
    then show ?thesis using r by (simp add: exitErr_def readable_def)
  next
    case (Some k)
    then have "k < length (tokens sc)"
      by (auto simp: find_Some_iff split: if_splits)
    then have "snd (tokens sc ! k) = None"
      using r by (simp add: readable_def list_all_length)
    then show ?thesis using Some by (simp add: exitErr_def)
  qed
qed

lemma exitErr_unlimited: "limit \<le> 0 \<Longrightarrow> exitErr d s limit sc = final sc"
  by (simp add: exitErr_def)

lemma bodyLines_skip:
  "list_all (\<lambda>l. TrimSpace l = []) blanks \<Longrightarrow> TrimSpace h \<noteq> [] \<Longrightarrow>
   bodyLines True (blanks @ h # rest) = bodyLines False rest"
  by (induction blanks) (simp_all add: bodyLines_blank bodyLines_header)

lemma indexLoop_accounts:
  assumes "Mapping.lookup (fst (indexLoop uc users Mapping.empty seen ps)) h = Some xs" "a \<in> set xs"
  shows "\<exists>u \<in> set users. \<not> excluded uc u \<and> Account u = a"
proof -
  let ?new = "map Account (filter (\<lambda>u. \<not> excluded uc u \<and> ToUpper uc (Hash u) = h) users)"
  from assms(1) have "?new \<noteq> []" "xs = ?new"
    by (auto simp: indexLoop_hashes Let_def lookup_default_empty split: if_splits)
  with assms(2) show ?thesis by auto
qed

lemma checkPrefixMatches_ok:
  "api prefix = Inr resp \<Longrightarrow>
   checkPrefixMatches uc api prefix w =
     markExposed (responseMatches uc (userHashes (checker w)) prefix resp)
       (w\<lparr>requests := requests w @ [prefix]\<rparr>)"
  using fold_matchLine[of uc prefix "SplitByte (CHR 0x0A) resp" "w\<lparr>requests := requests w @ [prefix]\<rparr>"]
  by (simp add: checkPrefixMatches_def responseMatches_def)

lemma checkPrefixMatches_failed:
  "api prefix = Inl e \<Longrightarrow>
   checkPrefixMatches uc api prefix w =
     w\<lparr>requests := requests w @ [prefix], stdout := stdout w @ [QueryError prefix e]\<rparr>"
  by (simp add: checkPrefixMatches_def)

lemma markExposed_write_failed:
  "\<not> isExposed (checker w) a \<Longrightarrow> Write (sink w) a = (rw, Some e) \<Longrightarrow>
   markExposed (a # as) w =
     markExposed as
       (w\<lparr>checker := (checker w)\<lparr>exposedUsers := Mapping.update a True (exposedUsers (checker w))\<rparr>,
          sink := rw, stdout := stdout w @ [Exposed a, WriteError e]\<rparr>)"
  by simp

lemma queryErrors_append [simp]: "queryErrors (xs @ ys) = queryErrors xs @ queryErrors ys"
  by (induction xs rule: queryErrors.induct) auto

lemma queryErrors_err [simp]:
  "queryErrors (case err of None \<Rightarrow> [] | Some e \<Rightarrow> [WriteError e]) = []"
  by (cases err) auto

lemma markExposed_queryErrors [simp]:
  "queryErrors (stdout (markExposed as w)) = queryErrors (stdout w)"
  by (induction as w rule: markExposed.induct) (auto split: prod.splits)

lemma workerStep_queryErrors:
  assumes "requests (shared q) = r0 @ rs"
    "queryErrors (stdout (shared q)) = q0 @ filter (failed api) rs"
  shows "\<exists>rs'. requests (shared (workerStep uc api i q)) = r0 @ rs' \<and>
          queryErrors (stdout (shared (workerStep uc api i q))) = q0 @ filter (failed api) rs'"
proof (cases "workers q ! i")
  case Exited
  then show ?thesis using assms by (simp add: workerStep_def)
next
  case Idle
  show ?thesis
  proof (cases "jobs q")
    case Nil
    then show ?thesis using Idle assms by (simp add: workerStep_def)
  next
    case (Cons j js)
    show ?thesis
      using Idle Cons assms
      by (cases "api j") (auto simp: workerStep_def Let_def failed_def intro!: exI[of _ "rs @ [j]"])
  qed
next
  case (Busy j ls)
  show ?thesis
    using Busy assms
    by (cases ls) (auto simp: workerStep_def matchLine_eq)
qed

lemma qpc_queryErrors:
  "queryErrors (stdout (queryPrefixesConcurrently uc api sched ps n w)) =
   queryErrors (stdout w) @ filter (failed api) ps"
proof -
  let ?n = "if n < 1 then 1 else n"
  let ?p0 = "\<lparr>shared = w, jobs = ps, workers = replicate (nat ?n) Idle,
              completed = 0, total = int (length ps)\<rparr>"
  define I where "I q \<longleftrightarrow> (\<exists>rs. requests (shared q) = requests w @ rs \<and>
      queryErrors (stdout (shared q)) = queryErrors (stdout w) @ filter (failed api) rs)" for q :: pool
  have "I ?p0" by (simp add: I_def)
  moreover have "I (workerStep uc api i q)" if "I q" for q i
    using that workerStep_queryErrors[of q "requests w" _ "queryErrors (stdout w)" api uc i]
    by (auto simp: I_def)
  ultimately have "I (pool_run uc api sched ?p0)" by (rule pool_run_inv)
  then obtain rs where rs: "requests (shared (pool_run uc api sched ?p0)) = requests w @ rs"
    "queryErrors (stdout (shared (pool_run uc api sched ?p0))) = queryErrors (stdout w) @ filter (failed api) rs"
    by (auto simp: I_def)
  have "workers ?p0 \<noteq> []" by auto
  moreover have "jobs ?p0 = [] \<or> (\<exists>v \<in> set (workers ?p0). v \<noteq> Exited)" by auto
  ultimately have "requests (shared (pool_run uc api sched ?p0)) = requests (shared ?p0) @ jobs ?p0"
    by (rule pool_run_requests)
  with rs(1) have "rs = ps" by simp
  with rs(2) show ?thesis
    by (simp add: queryPrefixesConcurrently_def Let_def)
qed

lemma CheckFile_queryErrors:
  assumes "loadUsers fs f d s l = Inr users"
  shows "queryErrors (stdout (fst (CheckFile uc fs api sched f d s n l w))) =
           queryErrors (stdout w) @ filter (failed api) (snd (buildHashIndex uc (checker w) users))"
proof -
  obtain c ps where b: "buildHashIndex uc (checker w) users = (c, ps)"
    by (cases "buildHashIndex uc (checker w) users")
  show ?thesis
    unfolding CheckFile_Inr[OF assms b refl refl] b
    by (simp add: qpc_queryErrors)
qed

section \<open>The claims\<close>

text \<open>
  Claim C1 (at most one Finding per account). Whatever the schedule of the workers, over a
  whole run of \<open>CheckFile\<close> every account is announced on the console at most once and
  written to the sink at most once, the written lines being among the announced accounts;
  every announced account is marked in \<open>exposedUsers\<close>; and a mark is never removed: an
  account that is exposed stays exposed over every step of every worker and over the run.
  This holds for a hash shared by several accounts, an account carried by several records
  and a suffix reported twice, since a second lookup finds the account already marked. The
  run starts from any world in which \<open>exposureInv\<close> holds, such as the new world of the
  program.
\<close>

theorem exposure_at_most_once:
  assumes "exposureInv w" and "CheckFile uc fs api sched f d s n l w = (w', r)"
  shows "distinct (findings (stdout w')) \<and> distinct (sinkLines w') \<and>
         list_all (\<lambda>a. a \<in> set (findings (stdout w'))) (sinkLines w') \<and>
         list_all (isExposed (checker w')) (findings (stdout w')) \<and>
         (isExposed (checker w) a \<longrightarrow> isExposed (checker w') a) \<and>
         (isExposed (checker (shared p)) a \<longrightarrow>
            isExposed (checker (shared (workerStep uc api i p))) a) \<and>
         (exposureInv (shared p) \<longrightarrow> exposureInv (shared (workerStep uc api i p)))"
proof -
  have "exposureInv w'"
    using CheckFile_exposureInv[OF assms(1), of uc fs api sched f d s n l] assms(2) by simp
  moreover have "isExposed (checker w) a \<longrightarrow> isExposed (checker w') a"
    using CheckFile_monotone[of w a uc fs api sched f d s n l] assms(2) by simp
  ultimately show ?thesis
    using workerStep_monotone[of p a uc api i] workerStep_exposureInv[of p uc api i]
    by (simp add: exposureInv_def)
qed

theorem exposure_at_most_once_witness:
  "exposureInv (newWorld (Some (Writer [] []))) \<and>
   findings (stdout (fst demoRun)) = [''bob'', ''carol'', ''alice''] \<and>
   distinct (findings (stdout (fst demoRun))) \<and>
   sinkLines (fst demoRun) = [''bob'', ''carol'', ''alice''] \<and>
   distinct (sinkLines (fst demoRun)) \<and>
   exposureInv (fst demoRun) \<and>
   isExposed (checker (fst demoRun)) ''alice'' \<and>
   isExposed (checker (fst demoRerun)) ''alice'' \<and>
   findings (stdout (fst demoRerun)) = [''bob'', ''carol'', ''alice''] \<and>
   sinkLines (fst demoRerun) = [''bob'', ''carol'', ''alice'']"
proof -
  have h: "exposureInv (newWorld (Some (Writer [] [])))"
    by code_simp
  have r: "CheckFile demoUpper demoFiles demoApi [2, 0, 1, 1, 0, 2] ''accounts.txt'' '':'' True 3 0
             (newWorld (Some (Writer [] []))) = (fst demoRun, snd demoRun)"
    by (simp add: demoRun_def)
  have e: "findings (stdout (fst demoRun)) = [''bob'', ''carol'', ''alice'']"
    "sinkLines (fst demoRun) = [''bob'', ''carol'', ''alice'']"
    by code_simp+
  have e2: "isExposed (checker (fst demoRun)) ''alice''"
    "findings (stdout (fst demoRerun)) = [''bob'', ''carol'', ''alice'']"
    "sinkLines (fst demoRerun) = [''bob'', ''carol'', ''alice'']"
    by code_simp+
  note t1 = exposure_at_most_once[OF h r]
  then have h2: "exposureInv (fst demoRun)"
    by (simp add: exposureInv_def)
  have r2: "CheckFile demoUpper demoFiles demoApi [1, 1, 0] ''accounts.txt'' '':'' True 2 0 (fst demoRun) =
              (fst demoRerun, snd demoRerun)"
    by (simp add: demoRerun_def)
  from exposure_at_most_once[OF h2 r2, of "''alice''"] e2(1)
  have "isExposed (checker (fst demoRerun)) ''alice''" by blast
  with t1 h h2 e e2 show ?thesis by simp
qed

text \<open>
  Claim C2 (matching a response). When the query of a prefix succeeds,
  \<open>checkPrefixMatches\<close> marks exactly \<open>responseMatches\<close>: the response is split into
  lines, each line is trimmed, blank lines and lines that do not split in two at the first
  colon are skipped, the full hash is the prefix followed by the uppercased suffix, and the
  accounts are those the index holds under that hash. A response that matches no hash of
  the index changes nothing but the log of requests: no Finding and no error. The same
  holds line by line for \<open>matchLine\<close>, and so for the concurrent run, which marks exactly
  the matches of all the prefixes.
\<close>

theorem response_processing:
  assumes "api prefix = Inr resp"
  shows "checkPrefixMatches uc api prefix w =
           markExposed (responseMatches uc (userHashes (checker w)) prefix resp)
             (w\<lparr>requests := requests w @ [prefix]\<rparr>) \<and>
         exposedUsers (checker (checkPrefixMatches uc api prefix w)) =
           markAll (responseMatches uc (userHashes (checker w)) prefix resp) (exposedUsers (checker w)) \<and>
         (responseMatches uc (userHashes (checker w)) prefix resp = [] \<longrightarrow>
            checkPrefixMatches uc api prefix w = w\<lparr>requests := requests w @ [prefix]\<rparr>) \<and>
         matchLine uc prefix text w = markExposed (lineMatches uc (userHashes (checker w)) prefix text) w \<and>
         exposedUsers (checker (queryPrefixesConcurrently uc api sched ps n w)) =
           markAll (allMatches uc api (userHashes (checker w)) ps) (exposedUsers (checker w))"
proof -
  note c = checkPrefixMatches_ok[of api prefix resp uc w, OF assms]
  have "exposedUsers (checker (checkPrefixMatches uc api prefix w)) =
           markAll (responseMatches uc (userHashes (checker w)) prefix resp) (exposedUsers (checker w))"
    unfolding c by (simp add: markExposed_exposedUsers)
  moreover have "checkPrefixMatches uc api prefix w = w\<lparr>requests := requests w @ [prefix]\<rparr>"
    if "responseMatches uc (userHashes (checker w)) prefix resp = []"
    unfolding c that by simp
  ultimately show ?thesis
    using c matchLine_eq[of uc prefix "text" w] qpc_exposedUsers[of uc api sched ps n w] by blast
qed

theorem response_processing_witness:
  "demoApi ''AAAAA'' =
     Inr (''0000000000000000000000000:12'' @ [CHR 0x0D, CHR 0x0A] @
          ''1111122223333444455556666:3'' @ [CHR 0x0D, CHR 0x0A]) \<and>
   responseMatches demoUpper (userHashes (checker demoIndexed)) ''AAAAA''
     (''0000000000000000000000000:12'' @ [CHR 0x0D, CHR 0x0A] @
      ''1111122223333444455556666:3'' @ [CHR 0x0D, CHR 0x0A]) = [''alice''] \<and>
   stdout (checkPrefixMatches demoUpper demoApi ''AAAAA'' demoIndexed) = [Exposed ''alice''] \<and>
   exposedUsers (checker (checkPrefixMatches demoUpper demoApi ''AAAAA'' demoIndexed)) =
     markAll [''alice''] (exposedUsers (checker demoIndexed)) \<and>
   responseMatches demoUpper
     (userHashes (fst (buildHashIndex demoUpper NewChecker
        [\<lparr>Account = ''u'', Hash = ''AAAAA'' @ E_acute @ ''1''\<rparr>])))
     ''AAAAA'' (nbsp @ e_acute @ ''1:4'' @ [CHR 0x0D, CHR 0x0A]) = [''u'']"
proof -
  have e: "demoApi ''AAAAA'' =
     Inr (''0000000000000000000000000:12'' @ [CHR 0x0D, CHR 0x0A] @
          ''1111122223333444455556666:3'' @ [CHR 0x0D, CHR 0x0A])"
    "responseMatches demoUpper (userHashes (checker demoIndexed)) ''AAAAA''
     (''0000000000000000000000000:12'' @ [CHR 0x0D, CHR 0x0A] @
      ''1111122223333444455556666:3'' @ [CHR 0x0D, CHR 0x0A]) = [''alice'']"
    "stdout (checkPrefixMatches demoUpper demoApi ''AAAAA'' demoIndexed) = [Exposed ''alice'']"
    "responseMatches demoUpper
     (userHashes (fst (buildHashIndex demoUpper NewChecker
        [\<lparr>Account = ''u'', Hash = ''AAAAA'' @ E_acute @ ''1''\<rparr>])))
     ''AAAAA'' (nbsp @ e_acute @ ''1:4'' @ [CHR 0x0D, CHR 0x0A]) = [''u'']"
    by code_simp+
  from response_processing[of demoApi "''AAAAA''" "''0000000000000000000000000:12'' @ [CHR 0x0D, CHR 0x0A] @
       ''1111122223333444455556666:3'' @ [CHR 0x0D, CHR 0x0A]" demoUpper demoIndexed, OF e(1)] e
  show ?thesis by metis
qed

text \<open>
  Claim C3 (the prefixes). The list that \<open>buildHashIndex\<close> returns has no duplicates and
  holds exactly the first five characters of the uppercased hash of every record that is
  not excluded; for a checker whose index was empty these are the prefixes of the keys of
  the index. The pool sends the provider exactly this list, one request per prefix, for
  every number of workers and every schedule.
\<close>

theorem prefixes_once:
  assumes "buildHashIndex uc c users = (c', ps)"
  shows "distinct ps \<and>
         set ps = (\<lambda>u. take 5 (ToUpper uc (Hash u))) ` {u \<in> set users. \<not> excluded uc u} \<and>
         (Mapping.keys (userHashes c) = {} \<longrightarrow> set ps = take 5 ` Mapping.keys (userHashes c')) \<and>
         requests (queryPrefixesConcurrently uc api sched ps n w) = requests w @ ps"
proof -
  have ps: "ps = snd (indexLoop uc users (userHashes c) Mapping.empty [])"
    and c': "userHashes c' = fst (indexLoop uc users (userHashes c) Mapping.empty [])"
    using assms buildHashIndex_fst[of uc c users] by simp_all
  have "seenSet Mapping.empty = set []" "distinct ([] :: string list)"
    by (simp_all add: seenSet_empty)
  from indexLoop_prefixes[OF this, of uc users "userHashes c"]
  have d: "distinct ps"
    and s: "set ps = {take 5 (ToUpper uc (Hash u)) |u. u \<in> set users \<and> \<not> excluded uc u}"
    unfolding ps by simp_all
  have k: "Mapping.keys (userHashes c') =
           Mapping.keys (userHashes c) \<union> {ToUpper uc (Hash u) |u. u \<in> set users \<and> \<not> excluded uc u}"
    unfolding c' by (rule indexLoop_keys)
  have "set ps = take 5 ` Mapping.keys (userHashes c')" if "Mapping.keys (userHashes c) = {}"
    unfolding k s that by auto
  moreover have "set ps = (\<lambda>u. take 5 (ToUpper uc (Hash u))) ` {u \<in> set users. \<not> excluded uc u}"
    unfolding s by auto
  ultimately show ?thesis using d qpc_requests[of uc api sched ps n w] by blast
qed

theorem prefixes_once_witness:
  "buildHashIndex demoUpper NewChecker (recordsOf '':'' True 0 demoLines) =
     (fst (buildHashIndex demoUpper NewChecker (recordsOf '':'' True 0 demoLines)), [''AAAAA'', ''BBBBB'', ''CCCCC'']) \<and>
   distinct [''AAAAA'', ''BBBBB'', ''CCCCC''] \<and>
   requests (fst demoRun) = [''AAAAA'', ''BBBBB'', ''CCCCC''] \<and>
   snd (buildHashIndex demoUpper NewChecker
          [\<lparr>Account = ''u'', Hash = notUTF8\<rparr>]) =
     [replacement @ take 2 replacement] \<and>
   snd (buildHashIndex demoUpper NewChecker
          [\<lparr>Account = ''u'', Hash = nbsp @ nbsp @ nbsp\<rparr>]) = []"
proof -
  have e: "snd (buildHashIndex demoUpper NewChecker (recordsOf '':'' True 0 demoLines)) = [''AAAAA'', ''BBBBB'', ''CCCCC'']"
    "requests (fst demoRun) = [''AAAAA'', ''BBBBB'', ''CCCCC'']"
    by code_simp+
  have x: "snd (buildHashIndex demoUpper NewChecker
          [\<lparr>Account = ''u'', Hash = notUTF8\<rparr>]) =
     [replacement @ take 2 replacement]"
    "snd (buildHashIndex demoUpper NewChecker
          [\<lparr>Account = ''u'', Hash = nbsp @ nbsp @ nbsp\<rparr>]) = []"
    by code_simp+
  from e have b: "buildHashIndex demoUpper NewChecker (recordsOf '':'' True 0 demoLines) =
     (fst (buildHashIndex demoUpper NewChecker (recordsOf '':'' True 0 demoLines)), [''AAAAA'', ''BBBBB'', ''CCCCC''])"
    by (metis prod.collapse)
  from prefixes_once[OF b] e b x show ?thesis by blast
qed

text \<open>
  Claim C4 as stated also says that the account of an excluded record can never enter the
  exposure set. That fails when another record carries the same account name: below the
  record \<open>bob\<close> with an empty hash is excluded, and \<open>bob\<close> is exposed through his
  second record.
\<close>

theorem excluded_record_account_exposed_counterexample:
  "excluded demoUpper \<lparr>Account = ''bob'', Hash = ''''\<rparr> \<and>
   loadUsers (\<lambda>name. Inr \<lparr>tokens = [(''bob:'', None), (''bob:bbbbb1111122223333444455556666'', None)],
                           final = None\<rparr>) ''accounts.txt'' '':'' False 0 =
     Inr [\<lparr>Account = ''bob'', Hash = ''''\<rparr>,
          \<lparr>Account = ''bob'', Hash = ''bbbbb1111122223333444455556666''\<rparr>] \<and>
   Mapping.lookup
     (exposedUsers (checker (fst (CheckFile demoUpper
        (\<lambda>name. Inr \<lparr>tokens = [(''bob:'', None), (''bob:bbbbb1111122223333444455556666'', None)],
                       final = None\<rparr>)
        demoApi [] ''accounts.txt'' '':'' False 1 0 (newWorld None)))))
     ''bob'' = Some True"
  by code_simp

text \<open>
  Claim C4 (filtering), amended. After \<open>buildHashIndex\<close> the entry of a hash is what it
  was before followed by the accounts of the records that are not excluded and have that
  uppercased hash, in input order and with repetitions; hence a single record leaves the
  index of a new checker empty if and only if it is excluded, i.e. its account ends with
  \<open>$\<close>, its hash is blank after trimming, or its uppercased hash is shorter than 5. An
  account enters \<open>exposedUsers\<close> only through an indexed record: an account all of whose
  records are excluded, and so every account ending with \<open>$\<close>, is never exposed.
\<close>

theorem index_filtering:
  "Mapping.lookup (userHashes (fst (buildHashIndex uc c users))) h =
     (let new = map Account (filter (\<lambda>u. \<not> excluded uc u \<and> ToUpper uc (Hash u) = h) users)
      in if new = [] then Mapping.lookup (userHashes c) h
         else Some (Mapping.lookup_default [] (userHashes c) h @ new)) \<and>
   (Mapping.keys (userHashes (fst (buildHashIndex uc NewChecker [u]))) = {}) = excluded uc u \<and>
   (loadUsers fs f d s l = Inr users \<and> list_all (\<lambda>u. Account u = a \<longrightarrow> excluded uc u) users \<longrightarrow>
      a \<notin> Mapping.keys (exposedUsers (checker (fst (CheckFile uc fs api sched f d s n l (newWorld out)))))) \<and>
   (loadUsers fs f d s l = Inr users \<and> HasSuffix a ''$'' \<longrightarrow>
      a \<notin> Mapping.keys (exposedUsers (checker (fst (CheckFile uc fs api sched f d s n l (newWorld out))))))"
proof -
  have 1: "Mapping.lookup (userHashes (fst (buildHashIndex uc c users))) h =
     (let new = map Account (filter (\<lambda>u. \<not> excluded uc u \<and> ToUpper uc (Hash u) = h) users)
      in if new = [] then Mapping.lookup (userHashes c) h
         else Some (Mapping.lookup_default [] (userHashes c) h @ new))"
    unfolding buildHashIndex_fst by (rule indexLoop_hashes)
  have 2: "(Mapping.keys (userHashes (fst (buildHashIndex uc NewChecker [u]))) = {}) = excluded uc u"
    unfolding buildHashIndex_fst indexLoop_keys by (auto simp: NewChecker_def)
  have 3: "\<exists>u \<in> set users. \<not> excluded uc u \<and> Account u = a"
    if l: "loadUsers fs f d s l = Inr users"
      and a: "a \<in> Mapping.keys (exposedUsers (checker (fst (CheckFile uc fs api sched f d s n l (newWorld out)))))"
  proof -
    let ?uh = "userHashes (fst (buildHashIndex uc (checker (newWorld out)) users))"
    have "a \<in> set (allMatches uc api ?uh (snd (buildHashIndex uc (checker (newWorld out)) users)))"
      using a unfolding CheckFile_result(1)[OF l] keys_markAll
      by (simp add: newWorld_def NewChecker_def)
    from allMatches_subset[OF this] obtain h xs where
      "Mapping.lookup ?uh h = Some xs" "a \<in> set xs" by blast
    then show ?thesis
      using indexLoop_accounts[of uc users Mapping.empty "[]" h xs a]
      by (simp add: buildHashIndex_fst newWorld_def NewChecker_def)
  qed
  have 4: "a \<notin> Mapping.keys (exposedUsers (checker (fst (CheckFile uc fs api sched f d s n l (newWorld out)))))"
    if "loadUsers fs f d s l = Inr users" "list_all (\<lambda>u. Account u = a \<longrightarrow> excluded uc u) users"
    using 3[OF that(1)] that(2) by (auto simp: list_all_iff)
  have 5: "a \<notin> Mapping.keys (exposedUsers (checker (fst (CheckFile uc fs api sched f d s n l (newWorld out)))))"
    if "loadUsers fs f d s l = Inr users" "HasSuffix a ''$''"
    using 3[OF that(1)] that(2) by (auto simp: excluded_def)
  from 1 2 4 5 show ?thesis by blast
qed

theorem index_filtering_witness:
  "Mapping.lookup (userHashes (fst (buildHashIndex demoUpper NewChecker (recordsOf '':'' True 0 demoLines))))
     ''BBBBB1111122223333444455556666'' = Some [''bob'', ''carol''] \<and>
   excluded demoUpper \<lparr>Account = ''PC01$'', Hash = ''AAAAA1111122223333444455556666''\<rparr> \<and>
   excluded demoUpper \<lparr>Account = ''dave'', Hash = ''''\<rparr> \<and>
   excluded demoUpper \<lparr>Account = ''x'', Hash = ''abcd''\<rparr> \<and>
   \<not> excluded demoUpper \<lparr>Account = ''alice'', Hash = ''aaaaa1111122223333444455556666''\<rparr> \<and>
   Mapping.keys (userHashes (fst (buildHashIndex demoUpper NewChecker [\<lparr>Account = ''dave'', Hash = ''''\<rparr>]))) = {} \<and>
   loadUsers demoFiles ''accounts.txt'' '':'' True 0 = Inr (recordsOf '':'' True 0 demoLines) \<and>
   list_all (\<lambda>u. Account u = ''dave'' \<longrightarrow> excluded demoUpper u) (recordsOf '':'' True 0 demoLines) \<and>
   HasSuffix ''PC01$'' ''$'' \<and>
   ''dave'' \<notin> Mapping.keys (exposedUsers (checker (fst demoRun))) \<and>
   ''PC01$'' \<notin> Mapping.keys (exposedUsers (checker (fst demoRun))) \<and>
   excluded demoUpper \<lparr>Account = ''u'', Hash = nbsp @ nbsp @ nbsp\<rparr> \<and>
   \<not> excluded demoUpper \<lparr>Account = ''u'', Hash = notUTF8\<rparr> \<and>
   Mapping.lookup
     (userHashes (fst (buildHashIndex demoUpper NewChecker
        [\<lparr>Account = ''u'', Hash = notUTF8\<rparr>])))
     (replacement @ replacement @ replacement) =
     Some [''u'']"
proof -
  have e: "map Account (filter (\<lambda>u. \<not> excluded demoUpper u \<and> ToUpper demoUpper (Hash u) = ''BBBBB1111122223333444455556666'')
              (recordsOf '':'' True 0 demoLines)) = [''bob'', ''carol'']"
    "excluded demoUpper \<lparr>Account = ''PC01$'', Hash = ''AAAAA1111122223333444455556666''\<rparr>"
    "excluded demoUpper \<lparr>Account = ''dave'', Hash = ''''\<rparr>"
    "excluded demoUpper \<lparr>Account = ''x'', Hash = ''abcd''\<rparr>"
    "\<not> excluded demoUpper \<lparr>Account = ''alice'', Hash = ''aaaaa1111122223333444455556666''\<rparr>"
    "loadUsers demoFiles ''accounts.txt'' '':'' True 0 = Inr (recordsOf '':'' True 0 demoLines)"
    "list_all (\<lambda>u. Account u = ''dave'' \<longrightarrow> excluded demoUpper u) (recordsOf '':'' True 0 demoLines)"
    "HasSuffix ''PC01$'' ''$''"
    by code_simp+
  have x: "excluded demoUpper \<lparr>Account = ''u'', Hash = nbsp @ nbsp @ nbsp\<rparr>"
    "\<not> excluded demoUpper \<lparr>Account = ''u'', Hash = notUTF8\<rparr>"
    "Mapping.lookup
     (userHashes (fst (buildHashIndex demoUpper NewChecker
        [\<lparr>Account = ''u'', Hash = notUTF8\<rparr>])))
     (replacement @ replacement @ replacement) =
     Some [''u'']"
    by code_simp+
  note t = index_filtering[of demoUpper NewChecker "recordsOf '':'' True 0 demoLines" "''BBBBB1111122223333444455556666''" "\<lparr>Account = ''dave'', Hash = ''''\<rparr>" demoFiles "''accounts.txt''" "'':''" True 0 "''dave''" demoApi "[2, 0, 1, 1, 0, 2]" 3 "Some (Writer [] [])"]
  note t' = index_filtering[of demoUpper NewChecker "recordsOf '':'' True 0 demoLines" "''BBBBB1111122223333444455556666''" "\<lparr>Account = ''dave'', Hash = ''''\<rparr>" demoFiles "''accounts.txt''" "'':''" True 0 "''PC01$''" demoApi "[2, 0, 1, 1, 0, 2]" 3 "Some (Writer [] [])"]
  have k: "''dave'' \<notin> Mapping.keys (exposedUsers (checker (fst demoRun)))"
    using t e(6) e(7) unfolding demoRun_def by blast
  have k': "''PC01$'' \<notin> Mapping.keys (exposedUsers (checker (fst demoRun)))"
    using t' e(6) e(8) unfolding demoRun_def by blast
  have 1: "Mapping.lookup (userHashes (fst (buildHashIndex demoUpper NewChecker (recordsOf '':'' True 0 demoLines))))
     ''BBBBB1111122223333444455556666'' = Some [''bob'', ''carol'']"
    using t e(1) by (simp add: NewChecker_def lookup_default_empty)
  have 2: "Mapping.keys (userHashes (fst (buildHashIndex demoUpper NewChecker [\<lparr>Account = ''dave'', Hash = ''''\<rparr>]))) = {}"
    using t e(3) by blast
  from 1 2 e k k' x show ?thesis by blast
qed



text \<open>
  Claim C6 as stated says that \<open>CheckFile\<close> returns an error whenever the input cannot
  be read. That fails with a positive limit: the scanner below ends with a read error after
  its first line, so a run without a limit returns the error, but with limit 1 the loading
  loop stops at the first record and the run returns a count and no error.
\<close>

theorem CheckFile_limit_hides_read_error_counterexample:
  "\<not> readable \<lparr>tokens = [(''alice:AAAAA11'', None)], final = Some ReadFailed\<rparr> \<and>
   snd (CheckFile demoUpper
          (\<lambda>name. Inr \<lparr>tokens = [(''alice:AAAAA11'', None)], final = Some ReadFailed\<rparr>)
          demoApi [] ''accounts.txt'' '':'' False 1 0 (newWorld None)) = (0, Some ReadFailed) \<and>
   snd (CheckFile demoUpper
          (\<lambda>name. Inr \<lparr>tokens = [(''alice:AAAAA11'', None)], final = Some ReadFailed\<rparr>)
          demoApi [] ''accounts.txt'' '':'' False 1 1 (newWorld None)) = (0, None)"
  by code_simp

text \<open>
  Claim C6 (errors), amended. A query fails on a transport error, on a status other than
  200 and on an unreadable body. \<open>CheckFile\<close> returns an error exactly when
  \<open>loadUsers\<close> does, that is when the file cannot be opened or the scanner has reported
  an error when the loading loop stops: without a limit, when the scanner ends with an
  error; with a positive limit an error the scanner would meet after the line that completes
  \<open>limit\<close> records is not reported. When it returns an error the count is 0 and nothing
  else has happened. Otherwise it returns \<open>len(exposedUsers)\<close> and no error, where
  \<open>exposedUsers\<close> holds the matches of the prefixes whose query succeeded, whatever the
  sink does and whichever queries fail. Every prefix is requested once and every failed one
  is reported once: a failed query marks nothing and prints its error. A failed write is
  printed, and the account stays marked while the loop goes on with the next account.
\<close>

theorem CheckFile_error_policy:
  "failed (QueryRangeRaw get) prefix =
     (case get (''https://api.pwnedpasswords.com/range/'' @ prefix @ ''?mode=ntlm'') of
        GetFailed \<Rightarrow> True
      | Got status body \<Rightarrow> status \<noteq> 200 \<or> body = None) \<and>
   (snd (snd (CheckFile uc fs api sched f d s n l w)) \<noteq> None) = (\<exists>e. loadUsers fs f d s l = Inl e) \<and>
   (snd (snd (CheckFile uc fs api sched f d s n l w)) \<noteq> None) =
     ((\<exists>e. fs f = Inl e) \<or> (\<exists>sc. fs f = Inr sc \<and> exitErr d s l sc \<noteq> None)) \<and>
   (l \<le> 0 \<longrightarrow>
      (snd (snd (CheckFile uc fs api sched f d s n l w)) \<noteq> None) =
        ((\<exists>e. fs f = Inl e) \<or> (\<exists>sc. fs f = Inr sc \<and> final sc \<noteq> None))) \<and>
   (loadUsers fs f d s l = Inl e \<longrightarrow> CheckFile uc fs api sched f d s n l w = (w, 0, Some e)) \<and>
   (loadUsers fs f d s l = Inr users \<longrightarrow>
      snd (CheckFile uc fs api sched f d s n l w) =
        (int (Mapping.size (exposedUsers (checker (fst (CheckFile uc fs api sched f d s n l w))))), None) \<and>
      exposedUsers (checker (fst (CheckFile uc fs api sched f d s n l w))) =
        markAll (allMatches uc api (userHashes (fst (buildHashIndex uc (checker w) users)))
                   (snd (buildHashIndex uc (checker w) users)))
          (exposedUsers (checker w)) \<and>
      requests (fst (CheckFile uc fs api sched f d s n l w)) =
        requests w @ snd (buildHashIndex uc (checker w) users) \<and>
      queryErrors (stdout (fst (CheckFile uc fs api sched f d s n l w))) =
        queryErrors (stdout w) @ filter (failed api) (snd (buildHashIndex uc (checker w) users))) \<and>
   (api prefix = Inl e' \<longrightarrow>
      prefixMatches uc api uh prefix = [] \<and>
      checkPrefixMatches uc api prefix w =
        w\<lparr>requests := requests w @ [prefix], stdout := stdout w @ [QueryError prefix e']\<rparr>) \<and>
   (\<not> isExposed (checker w) a \<and> Write (sink w) a = (rw, Some e'') \<longrightarrow>
      markExposed (a # as) w =
        markExposed as
          (w\<lparr>checker := (checker w)\<lparr>exposedUsers := Mapping.update a True (exposedUsers (checker w))\<rparr>,
             sink := rw, stdout := stdout w @ [Exposed a, WriteError e'']\<rparr>))"
proof -
  have 1: "(snd (snd (CheckFile uc fs api sched f d s n l w)) \<noteq> None) = (\<exists>e. loadUsers fs f d s l = Inl e)"
  proof (cases "loadUsers fs f d s l")
    case (Inl e)
    then show ?thesis by (simp add: CheckFile_Inl)
  next
    case (Inr users)
    then show ?thesis using CheckFile_result(3)[OF Inr, of uc api sched n w] by simp
  qed
  have fsiff: "(snd (snd (CheckFile uc fs api sched f d s n l w)) \<noteq> None) =
     ((\<exists>e. fs f = Inl e) \<or> (\<exists>sc. fs f = Inr sc \<and> exitErr d s l sc \<noteq> None))"
    unfolding 1 loadUsers_eq[of fs f d s l]
    by (cases "fs f") (auto split: option.splits)
  have nolimit: "l \<le> 0 \<longrightarrow>
      (snd (snd (CheckFile uc fs api sched f d s n l w)) \<noteq> None) =
        ((\<exists>e. fs f = Inl e) \<or> (\<exists>sc. fs f = Inr sc \<and> final sc \<noteq> None))"
    unfolding fsiff by (simp add: exitErr_unlimited)
  have 2: "loadUsers fs f d s l = Inl e \<longrightarrow> CheckFile uc fs api sched f d s n l w = (w, 0, Some e)"
    by (simp add: CheckFile_Inl)
  have 3: "loadUsers fs f d s l = Inr users \<longrightarrow>
      snd (CheckFile uc fs api sched f d s n l w) =
        (int (Mapping.size (exposedUsers (checker (fst (CheckFile uc fs api sched f d s n l w))))), None) \<and>
      exposedUsers (checker (fst (CheckFile uc fs api sched f d s n l w))) =
        markAll (allMatches uc api (userHashes (fst (buildHashIndex uc (checker w) users)))
                   (snd (buildHashIndex uc (checker w) users)))
          (exposedUsers (checker w)) \<and>
      requests (fst (CheckFile uc fs api sched f d s n l w)) =
        requests w @ snd (buildHashIndex uc (checker w) users) \<and>
      queryErrors (stdout (fst (CheckFile uc fs api sched f d s n l w))) =
        queryErrors (stdout w) @ filter (failed api) (snd (buildHashIndex uc (checker w) users))"
    using CheckFile_result[of fs f d s l users uc api sched n w]
      CheckFile_queryErrors[of fs f d s l users uc api sched n w] by blast
  have 4: "api prefix = Inl e' \<longrightarrow>
      prefixMatches uc api uh prefix = [] \<and>
      checkPrefixMatches uc api prefix w =
        w\<lparr>requests := requests w @ [prefix], stdout := stdout w @ [QueryError prefix e']\<rparr>"
    by (simp add: checkPrefixMatches_failed prefixMatches_def)
  have 5: "\<not> isExposed (checker w) a \<and> Write (sink w) a = (rw, Some e'') \<longrightarrow>
      markExposed (a # as) w =
        markExposed as
          (w\<lparr>checker := (checker w)\<lparr>exposedUsers := Mapping.update a True (exposedUsers (checker w))\<rparr>,
             sink := rw, stdout := stdout w @ [Exposed a, WriteError e'']\<rparr>)"
    using markExposed_write_failed[of w a rw e'' as] by blast
  have 0: "failed (QueryRangeRaw get) prefix =
     (case get (''https://api.pwnedpasswords.com/range/'' @ prefix @ ''?mode=ntlm'') of
        GetFailed \<Rightarrow> True
      | Got status body \<Rightarrow> status \<noteq> 200 \<or> body = None)"
    by (simp add: failed_def QueryRangeRaw_def split: http_result.splits option.splits)
  from 0 1 fsiff nolimit 2 3 4 5 show ?thesis by blast
qed

theorem CheckFile_error_policy_witness:
  "failed (QueryRangeRaw (\<lambda>url. Got 429 (Some []))) ''CCCCC'' \<and>
   \<not> failed (QueryRangeRaw (\<lambda>url. Got 200 (Some ''1111122223333444455556666:3''))) ''AAAAA'' \<and>
   checkPrefixMatches demoUpper demoApi ''CCCCC'' (newWorld None) =
     (newWorld None)\<lparr>requests := [''CCCCC''], stdout := [QueryError ''CCCCC'' QueryFailed]\<rparr> \<and>
   markExposed [''alice'', ''bob''] (newWorld (Some (Writer [] [True]))) =
     markExposed [''bob'']
       ((newWorld (Some (Writer [] [True])))
          \<lparr>checker := (checker (newWorld (Some (Writer [] [True]))))
             \<lparr>exposedUsers := Mapping.update ''alice'' True
                (exposedUsers (checker (newWorld (Some (Writer [] [True])))))\<rparr>,
           sink := \<lparr>writer = Some (Writer [] []), count = 0, enabled = True\<rparr>,
           stdout := stdout (newWorld (Some (Writer [] [True]))) @
             [Exposed ''alice'', WriteError WriteFailed]\<rparr>) \<and>
   loadUsers demoFiles ''missing.txt'' '':'' True 0 = Inl OpenFailed \<and>
   CheckFile demoUpper demoFiles demoApi [] ''missing.txt'' '':'' True 2 0 (newWorld None) =
     (newWorld None, 0, Some OpenFailed) \<and>
   loadUsers demoFiles ''accounts.txt'' '':'' True 0 = Inr (recordsOf '':'' True 0 demoLines) \<and>
   demoApi ''CCCCC'' = Inl QueryFailed \<and>
   snd demoFaulty = (3, None) \<and>
   stdout (fst demoFaulty) =
     [Found 6 3, Exposed ''alice'', WriteError WriteFailed, Progress 1 3,
      QueryError ''CCCCC'' QueryFailed, Progress 2 3,
      Exposed ''bob'', Exposed ''carol'', Progress 3 3, Queried 3 2] \<and>
   sinkLines (fst demoFaulty) = [''bob'', ''carol''] \<and>
   queryErrors (stdout (fst demoFaulty)) = [''CCCCC''] \<and>
   \<not> isExposed (checker (newWorld (Some (Writer [] [True])))) ''alice'' \<and>
   Write (sink (newWorld (Some (Writer [] [True])))) ''alice'' =
     (\<lparr>writer = Some (Writer [] []), count = 0, enabled = True\<rparr>, Some WriteFailed)"
proof -
  have e: "loadUsers demoFiles ''missing.txt'' '':'' True 0 = Inl OpenFailed"
    "loadUsers demoFiles ''accounts.txt'' '':'' True 0 = Inr (recordsOf '':'' True 0 demoLines)"
    "demoApi ''CCCCC'' = Inl QueryFailed"
    "Mapping.size (exposedUsers (checker (fst demoFaulty))) = 3"
    "stdout (fst demoFaulty) =
     [Found 6 3, Exposed ''alice'', WriteError WriteFailed, Progress 1 3,
      QueryError ''CCCCC'' QueryFailed, Progress 2 3,
      Exposed ''bob'', Exposed ''carol'', Progress 3 3, Queried 3 2]"
    "sinkLines (fst demoFaulty) = [''bob'', ''carol'']"
    "queryErrors (stdout (fst demoFaulty)) = [''CCCCC'']"
    "\<not> isExposed (checker (newWorld (Some (Writer [] [True])))) ''alice''"
    "Write (sink (newWorld (Some (Writer [] [True])))) ''alice'' =
     (\<lparr>writer = Some (Writer [] []), count = 0, enabled = True\<rparr>, Some WriteFailed)"
    by code_simp+
  note t1 = CheckFile_error_policy[where uc = demoUpper and fs = demoFiles and api = demoApi and sched = "[]"
      and f = "''missing.txt''" and d = "'':''" and s = True and n = 2 and l = 0
      and w = "newWorld None" and e = OpenFailed]
  note t2 = CheckFile_error_policy[where uc = demoUpper and fs = demoFiles and api = demoApi and sched = "[0, 1]"
      and f = "''accounts.txt''" and d = "'':''" and s = True and n = 2 and l = 0
      and w = "newWorld (Some (Writer [] [True]))" and users = "recordsOf '':'' True 0 demoLines"]
  have 1: "CheckFile demoUpper demoFiles demoApi [] ''missing.txt'' '':'' True 2 0 (newWorld None) =
     (newWorld None, 0, Some OpenFailed)"
    using t1 e(1) by blast
  have 2: "snd demoFaulty = (3, None)"
    using t2 e(2) e(4) by (simp add: demoFaulty_def)
  note t3 = CheckFile_error_policy[of "\<lambda>url. Got 429 (Some [])" "''CCCCC''"]
  note t4 = CheckFile_error_policy[of "\<lambda>url. Got 200 (Some ''1111122223333444455556666:3'')" "''AAAAA''"]
  note t5 = CheckFile_error_policy[where uc = demoUpper and api = demoApi and prefix = "''CCCCC''" and w = "newWorld None"
      and e' = QueryFailed]
  note t6 = CheckFile_error_policy[where w = "newWorld (Some (Writer [] [True]))" and a = "''alice''"
      and rw = "\<lparr>writer = Some (Writer [] []), count = 0, enabled = True\<rparr>" and e'' = WriteFailed
      and as = "[''bob'']"]
  have 3: "failed (QueryRangeRaw (\<lambda>url. Got 429 (Some []))) ''CCCCC''"
    using t3 by simp
  have 4: "\<not> failed (QueryRangeRaw (\<lambda>url. Got 200 (Some ''1111122223333444455556666:3''))) ''AAAAA''"
    using t4 by simp
  have 5: "checkPrefixMatches demoUpper demoApi ''CCCCC'' (newWorld None) =
     (newWorld None)\<lparr>requests := [''CCCCC''], stdout := [QueryError ''CCCCC'' QueryFailed]\<rparr>"
    using t5 e(3) by (simp add: newWorld_def)
  have 6: "markExposed [''alice'', ''bob''] (newWorld (Some (Writer [] [True]))) =
     markExposed [''bob'']
       ((newWorld (Some (Writer [] [True])))
          \<lparr>checker := (checker (newWorld (Some (Writer [] [True]))))
             \<lparr>exposedUsers := Mapping.update ''alice'' True
                (exposedUsers (checker (newWorld (Some (Writer [] [True])))))\<rparr>,
           sink := \<lparr>writer = Some (Writer [] []), count = 0, enabled = True\<rparr>,
           stdout := stdout (newWorld (Some (Writer [] [True]))) @
             [Exposed ''alice'', WriteError WriteFailed]\<rparr>)"
    using t6 e(8) e(9) by blast
  from 1 2 3 4 5 6 e show ?thesis by blast
qed

text \<open>
  Claim C7 (the counter of the sink) as stated fails for the writer without a destination:
  its only \<open>Write\<close> below returns no error, one account was passed, and \<open>Count\<close> is 0.
\<close>

theorem Count_nil_writer_counterexample:
  "list_all (\<lambda>e. e = None) (snd (WriteAll (NewResultWriter None) [''alice''])) \<and>
   Count (fst (WriteAll (NewResultWriter None) [''alice''])) \<noteq> int (length [''alice''])"
  by code_simp

text \<open>
  Claim C7, amended: for a \<open>ResultWriter\<close> built from a writer that is not nil, if no
  \<open>Write\<close> returns an error then \<open>Count\<close> is the number of accounts passed to
  \<open>Write\<close>; and in a run of \<open>CheckFile\<close> from the new world with such a sink, if no
  write error is reported then \<open>Count\<close> is the number of Findings announced, which is the
  number of distinct exposed accounts, \<open>len(exposedUsers)\<close>.
\<close>

theorem Count_enabled_writer:
  "(list_all (\<lambda>e. e = None) (snd (WriteAll (NewResultWriter (Some io)) accounts)) \<longrightarrow>
      Count (fst (WriteAll (NewResultWriter (Some io)) accounts)) = int (length accounts)) \<and>
   (writeErrors (stdout (fst (CheckFile uc fs api sched f d s n l (newWorld (Some io))))) = [] \<longrightarrow>
      Count (sink (fst (CheckFile uc fs api sched f d s n l (newWorld (Some io))))) =
        int (length (findings (stdout (fst (CheckFile uc fs api sched f d s n l (newWorld (Some io))))))) \<and>
      Count (sink (fst (CheckFile uc fs api sched f d s n l (newWorld (Some io))))) =
        int (Mapping.size (exposedUsers (checker (fst (CheckFile uc fs api sched f d s n l (newWorld (Some io))))))))"
proof -
  let ?rw = "NewResultWriter (Some io)"
  let ?w' = "fst (CheckFile uc fs api sched f d s n l (newWorld (Some io)))"
  obtain rw' errs where wa: "WriteAll ?rw accounts = (rw', errs)" by (cases "WriteAll ?rw accounts")
  have "enabled ?rw" "writer ?rw \<noteq> None" by (simp_all add: NewResultWriter_def)
  from WriteAll_count[OF this wa]
  have c: "count rw' = int (length (filter (\<lambda>e. e = None) errs))" "length errs = length accounts"
    by (simp_all add: NewResultWriter_def)
  have 1: "list_all (\<lambda>e. e = None) errs \<longrightarrow> Count rw' = int (length accounts)"
    using c by (auto simp: Count_def list_all_iff filter_id_conv[THEN iffD2])
  have "countInv 0 (newWorld (Some io))"
    by (simp add: countInv_def newWorld_def NewResultWriter_def)
  then have ci: "countInv 0 ?w'" by (rule CheckFile_countInv)
  have "keysInv (newWorld (Some io))"
    by (simp add: keysInv_def newWorld_def NewChecker_def)
  then have ki: "keysInv ?w'" by (rule CheckFile_keysInv)
  have "findingsInv (newWorld (Some io))"
    by (simp add: findingsInv_def newWorld_def)
  then have fi: "findingsInv ?w'" by (rule CheckFile_findingsInv)
  have k: "Mapping.keys (exposedUsers (checker ?w')) = set (findings (stdout ?w'))"
    using ki by (simp add: keysInv_def)
  have "Mapping.size (exposedUsers (checker ?w')) = length (findings (stdout ?w'))"
    unfolding Mapping.size_def k using fi by (simp add: findingsInv_def distinct_card)
  moreover have "count (sink ?w') = int (length (findings (stdout ?w')))"
    if "writeErrors (stdout ?w') = []"
    using ci that by (simp add: countInv_def)
  ultimately have 2: "writeErrors (stdout ?w') = [] \<longrightarrow>
      Count (sink ?w') = int (length (findings (stdout ?w'))) \<and>
      Count (sink ?w') = int (Mapping.size (exposedUsers (checker ?w')))"
    by (simp add: Count_def)
  from 1 2 wa show ?thesis by auto
qed

theorem Count_enabled_writer_witness:
  "list_all (\<lambda>e. e = None) (snd (WriteAll (NewResultWriter (Some (Writer [] []))) [''alice'', ''bob''])) \<and>
   Count (fst (WriteAll (NewResultWriter (Some (Writer [] []))) [''alice'', ''bob''])) = 2 \<and>
   writeErrors (stdout (fst demoRun)) = [] \<and>
   Count (sink (fst demoRun)) = 3 \<and>
   Mapping.size (exposedUsers (checker (fst demoRun))) = 3"
proof -
  have e: "list_all (\<lambda>e. e = None) (snd (WriteAll (NewResultWriter (Some (Writer [] []))) [''alice'', ''bob'']))"
    "writeErrors (stdout (fst demoRun)) = []"
    "length (findings (stdout (fst demoRun))) = 3"
    by code_simp+
  from Count_enabled_writer[of "Writer [] []" "[''alice'', ''bob'']" demoUpper demoFiles demoApi "[2, 0, 1, 1, 0, 2]" "''accounts.txt''" "'':''" True 3 0] e
  show ?thesis by (auto simp add: demoRun_def simp del: WriteAll.simps)
qed

text \<open>
  Claim C8 as stated says that \<open>loadUsers\<close> fails whenever the source cannot be read.
  That fails with a positive limit: the scanner below ends with a read error after its
  first line, so the source cannot be read and loading it without a limit fails, but with
  limit 1 the loop stops at the first record and returns it with no error.
\<close>

theorem loadUsers_limit_hides_read_error_counterexample:
  "\<not> readable \<lparr>tokens = [(''alice:AAAAA11'', None)], final = Some ReadFailed\<rparr> \<and>
   loadUsers (\<lambda>name. Inr \<lparr>tokens = [(''alice:AAAAA11'', None)], final = Some ReadFailed\<rparr>)
     ''accounts.txt'' '':'' False 0 = Inl ReadFailed \<and>
   loadUsers (\<lambda>name. Inr \<lparr>tokens = [(''alice:AAAAA11'', None)], final = Some ReadFailed\<rparr>)
     ''accounts.txt'' '':'' False 1 = Inr [\<lparr>Account = ''alice'', Hash = ''AAAAA11''\<rparr>]"
  by code_simp

text \<open>
  Claim C8 (the loader), amended. \<open>loadUsers\<close> fails exactly when the file cannot be
  opened (\<open>OpenFailed\<close>) or the scanner has reported an error when the loop stops
  (\<open>ReadFailed\<close>): \<open>exitErr\<close> is the value of \<open>Err()\<close> at that point. Without a
  limit the loop reads to the end, and \<open>loadUsers\<close> fails exactly when the file cannot be
  opened or the scanner ends with an error; with a positive limit the loop stops right after
  the line that completes \<open>limit\<close> records, and an error the scanner would meet further
  on is not reported. A source that the scanner reads without error never fails. In every
  other case the result is \<open>recordsOf\<close>: blank lines and lines that do not split into
  two parts are left out without error, and a positive \<open>limit\<close> keeps the first
  \<open>limit\<close> records of what \<open>limit = 0\<close> returns.
\<close>

theorem loadUsers_io_error:
  "(\<exists>e. loadUsers fs f d s limit = Inl e) =
     ((\<exists>e. fs f = Inl e) \<or> (\<exists>sc. fs f = Inr sc \<and> exitErr d s limit sc \<noteq> None)) \<and>
   (limit \<le> 0 \<longrightarrow>
      (\<exists>e. loadUsers fs f d s limit = Inl e) =
        ((\<exists>e. fs f = Inl e) \<or> (\<exists>sc. fs f = Inr sc \<and> final sc \<noteq> None))) \<and>
   loadUsers fs f d s limit =
     (case fs f of
        Inl e \<Rightarrow> Inl OpenFailed
      | Inr sc \<Rightarrow>
          (case exitErr d s limit sc of
             Some e \<Rightarrow> Inl ReadFailed
           | None \<Rightarrow> Inr (recordsOf d s limit (map fst (tokens sc))))) \<and>
   recordsOf d s limit texts =
     (if limit > 0 then take (nat limit) (recordsOf d s 0 texts) else recordsOf d s 0 texts) \<and>
   (readable sc \<longrightarrow> exitErr d s limit sc = None) \<and>
   (limit \<le> 0 \<longrightarrow> exitErr d s limit sc = final sc)"
proof -
  have 1: "(\<exists>e. loadUsers fs f d s limit = Inl e) =
     ((\<exists>e. fs f = Inl e) \<or> (\<exists>sc. fs f = Inr sc \<and> exitErr d s limit sc \<noteq> None))"
    unfolding loadUsers_eq[of fs f d s limit]
    by (cases "fs f") (auto split: option.splits)
  have 2: "(\<exists>e. loadUsers fs f d s limit = Inl e) =
        ((\<exists>e. fs f = Inl e) \<or> (\<exists>sc. fs f = Inr sc \<and> final sc \<noteq> None))" if "limit \<le> 0"
    unfolding 1 using that by (simp add: exitErr_unlimited)
  from 1 2 show ?thesis
    using loadUsers_eq[of fs f d s limit] recordsOf_limit[of d s limit texts]
      exitErr_readable[of sc d s limit] exitErr_unlimited[of limit d s sc]
    by simp
qed

theorem loadUsers_io_error_witness:
  "loadUsers demoFiles ''missing.txt'' '':'' True 2 = Inl OpenFailed \<and>
   loadUsers (\<lambda>name. Inr \<lparr>tokens = [(''alice:AAAAA11'', None)], final = Some ReadFailed\<rparr>)
     ''accounts.txt'' '':'' False 0 = Inl ReadFailed \<and>
   readable \<lparr>tokens = map (\<lambda>l. (l, None)) demoLines, final = None\<rparr> \<and>
   loadUsers demoFiles ''accounts.txt'' '':'' True 2 =
     Inr [\<lparr>Account = ''alice'', Hash = ''aaaaa1111122223333444455556666''\<rparr>,
          \<lparr>Account = ''bob'', Hash = ''BBBBB1111122223333444455556666''\<rparr>] \<and>
   recordsOf '':'' True 2 demoLines = take 2 (recordsOf '':'' True 0 demoLines) \<and>
   loadUsers
     (\<lambda>name. Inr \<lparr>tokens = [(nbsp, None), (''Account:Hash'', None),
                             (''dave:AAAAA11'' @ nbsp, None),
                             (e_acute, None)],
                   final = None\<rparr>)
     ''accounts.txt'' '':'' True 0 = Inr [\<lparr>Account = ''dave'', Hash = ''AAAAA11''\<rparr>] \<and>
   recordsOf [] False 0 [e_acute, e_acute @ ''x''] =
     [\<lparr>Account = e_acute, Hash = ''x''\<rparr>]"
proof -
  let ?nb = "\<lparr>tokens = [(nbsp, None), (''Account:Hash'', None),
                        (''dave:AAAAA11'' @ nbsp, None),
                        (e_acute, None)],
              final = None :: error option\<rparr>"
  have e: "demoFiles ''missing.txt'' = Inl OpenFailed"
    "readable \<lparr>tokens = map (\<lambda>l. (l, None)) demoLines, final = None\<rparr>"
    "demoFiles ''accounts.txt'' = Inr \<lparr>tokens = map (\<lambda>l. (l, None)) demoLines, final = None\<rparr>"
    "recordsOf '':'' True 2 demoLines =
       [\<lparr>Account = ''alice'', Hash = ''aaaaa1111122223333444455556666''\<rparr>,
        \<lparr>Account = ''bob'', Hash = ''BBBBB1111122223333444455556666''\<rparr>]"
    "readable ?nb"
    "recordsOf '':'' True 0 (map fst (tokens ?nb)) = [\<lparr>Account = ''dave'', Hash = ''AAAAA11''\<rparr>]"
    "recordsOf [] False 0 [e_acute, e_acute @ ''x''] =
       [\<lparr>Account = e_acute, Hash = ''x''\<rparr>]"
    by code_simp+
  have m: "map fst (map (\<lambda>l. (l, None :: error option)) demoLines) = demoLines"
    by (simp add: comp_def)
  note t1 = loadUsers_io_error[of demoFiles "''missing.txt''" "'':''" True 2 demoLines
      "\<lparr>tokens = map (\<lambda>l. (l, None)) demoLines, final = None\<rparr>"]
  note t2 = loadUsers_io_error[of "\<lambda>name. Inr \<lparr>tokens = [(''alice:AAAAA11'', None)], final = Some ReadFailed\<rparr>"
      "''accounts.txt''" "'':''" False 0 demoLines
      "\<lparr>tokens = [(''alice:AAAAA11'', None)], final = Some ReadFailed\<rparr>"]
  note t3 = loadUsers_io_error[of demoFiles "''accounts.txt''" "'':''" True 2 demoLines
      "\<lparr>tokens = map (\<lambda>l. (l, None)) demoLines, final = None\<rparr>"]
  note t4 = loadUsers_io_error[of "\<lambda>name. Inr ?nb" "''accounts.txt''" "'':''" True 0 demoLines ?nb]
  have 1: "loadUsers demoFiles ''missing.txt'' '':'' True 2 = Inl OpenFailed"
    using t1 e(1) by simp
  have 2: "loadUsers (\<lambda>name. Inr \<lparr>tokens = [(''alice:AAAAA11'', None)], final = Some ReadFailed\<rparr>)
     ''accounts.txt'' '':'' False 0 = Inl ReadFailed"
    using t2 by simp
  have 3: "loadUsers demoFiles ''accounts.txt'' '':'' True 2 =
     Inr [\<lparr>Account = ''alice'', Hash = ''aaaaa1111122223333444455556666''\<rparr>,
          \<lparr>Account = ''bob'', Hash = ''BBBBB1111122223333444455556666''\<rparr>]"
    using t3 e(2,3,4) m by simp
  have 4: "recordsOf '':'' True 2 demoLines = take 2 (recordsOf '':'' True 0 demoLines)"
    using t3 by simp
  have 5: "loadUsers (\<lambda>name. Inr ?nb) ''accounts.txt'' '':'' True 0 =
             Inr [\<lparr>Account = ''dave'', Hash = ''AAAAA11''\<rparr>]"
    using t4 e(5) e(6) by simp
  from 1 2 3 4 5 e(2) e(7) show ?thesis by blast
qed

text \<open>
  Claim C9 (the writer without a destination). For a \<open>ResultWriter\<close> built from a nil
  writer every \<open>Write\<close> returns no error and leaves the writer as it is, so \<open>Count\<close>
  stays 0 for any sequence of accounts written; in a run of \<open>CheckFile\<close> with such a sink
  the counter is 0 at the end however many accounts were found exposed.
\<close>

theorem nil_writer_noop:
  "WriteAll (NewResultWriter None) accounts =
     (NewResultWriter None, replicate (length accounts) None) \<and>
   Count (fst (WriteAll (NewResultWriter None) accounts)) = 0 \<and>
   sink (fst (CheckFile uc fs api sched f d s n l (newWorld None))) = NewResultWriter None \<and>
   Count (sink (fst (CheckFile uc fs api sched f d s n l (newWorld None)))) = 0"
proof -
  have d: "\<not> enabled (NewResultWriter None)" by (simp add: NewResultWriter_def)
  have "sink (fst (CheckFile uc fs api sched f d s n l (newWorld None))) = NewResultWriter None"
    by (rule CheckFile_sink_disabled[OF d]) (simp add: newWorld_def)
  then show ?thesis
    using WriteAll_disabled[OF d, of accounts] by (simp add: Count_def NewResultWriter_def)
qed

theorem nil_writer_noop_witness:
  "WriteAll (NewResultWriter None) [''alice'', ''bob''] = (NewResultWriter None, [None, None]) \<and>
   findings (stdout (fst (CheckFile demoUpper demoFiles demoApi [1, 0] ''accounts.txt'' '':'' True 2 0 (newWorld None))))
     = [''bob'', ''carol'', ''alice''] \<and>
   Count (sink (fst (CheckFile demoUpper demoFiles demoApi [1, 0] ''accounts.txt'' '':'' True 2 0 (newWorld None)))) = 0"
proof -
  have e: "findings (stdout (fst (CheckFile demoUpper demoFiles demoApi [1, 0] ''accounts.txt'' '':'' True 2 0 (newWorld None))))
     = [''bob'', ''carol'', ''alice'']"
    by code_simp
  from nil_writer_noop[of "[''alice'', ''bob'']" demoUpper demoFiles demoApi "[1, 0]" "''accounts.txt''" "'':''" True 2 0] e
  show ?thesis by (auto simp del: WriteAll.simps)
qed

text \<open>
  Claim C10 (the header). The records that \<open>loadUsers\<close> returns are \<open>recordsOf\<close>: the
  lines are trimmed, the blank ones dropped, then with \<open>skipHeader\<close> the first remaining
  line is discarded, then the lines that do not split into two parts are dropped, and only
  then the limit counts. So blank lines before the header do not use up the skip, and
  skipped lines neither count toward the limit nor appear as records.
\<close>

theorem loadUsers_header_skip:
  assumes "fs f = Inr sc" and "loadUsers fs f d skipHeader limit = Inr us"
  shows "us = recordsOf d skipHeader limit (map fst (tokens sc)) \<and>
         (limit > 0 \<longrightarrow> int (length us) \<le> limit) \<and>
         (list_all (\<lambda>l. TrimSpace l = []) blanks \<and> TrimSpace h \<noteq> [] \<longrightarrow>
            recordsOf d True limit (blanks @ h # rest) = recordsOf d False limit rest)"
proof -
  have 1: "us = recordsOf d skipHeader limit (map fst (tokens sc))"
    using assms loadUsers_eq[of fs f d skipHeader limit] by (simp split: option.splits)
  then have 2: "limit > 0 \<longrightarrow> int (length us) \<le> limit"
    by (auto simp: recordsOf_def Let_def)
  have 3: "list_all (\<lambda>l. TrimSpace l = []) blanks \<and> TrimSpace h \<noteq> [] \<longrightarrow>
            recordsOf d True limit (blanks @ h # rest) = recordsOf d False limit rest"
    by (simp add: recordsOf_def bodyLines_skip)
  from 1 2 3 show ?thesis by blast
qed

theorem loadUsers_header_skip_witness:
  "loadUsers demoFiles ''accounts.txt'' '':'' True 2 =
     Inr (recordsOf '':'' True 2 demoLines) \<and>
   recordsOf '':'' True 2 demoLines =
     [\<lparr>Account = ''alice'', Hash = ''aaaaa1111122223333444455556666''\<rparr>,
      \<lparr>Account = ''bob'', Hash = ''BBBBB1111122223333444455556666''\<rparr>] \<and>
   recordsOf '':'' True 2 ['''', ''  '', ''Account:Hash'', ''alice:AAAAA11'', ''junk'', ''bob:BBBBB22''] =
     recordsOf '':'' False 2 [''alice:AAAAA11'', ''junk'', ''bob:BBBBB22''] \<and>
   recordsOf '':'' False 2 [''alice:AAAAA11'', ''junk'', ''bob:BBBBB22''] =
     [\<lparr>Account = ''alice'', Hash = ''AAAAA11''\<rparr>, \<lparr>Account = ''bob'', Hash = ''BBBBB22''\<rparr>] \<and>
   TrimSpace nbsp = [] \<and>
   recordsOf '':'' True 2
     [nbsp, ''Account:Hash'', ''dave:AAAAA11'' @ nbsp] =
     [\<lparr>Account = ''dave'', Hash = ''AAAAA11''\<rparr>]"
proof -
  have e: "demoFiles ''accounts.txt'' = Inr \<lparr>tokens = map (\<lambda>l. (l, None)) demoLines, final = None\<rparr>"
    "loadUsers demoFiles ''accounts.txt'' '':'' True 2 =
       Inr [\<lparr>Account = ''alice'', Hash = ''aaaaa1111122223333444455556666''\<rparr>,
            \<lparr>Account = ''bob'', Hash = ''BBBBB1111122223333444455556666''\<rparr>]"
    "list_all (\<lambda>l. TrimSpace l = []) ['''', ''  '']" "TrimSpace ''Account:Hash'' \<noteq> []"
    "recordsOf '':'' False 2 [''alice:AAAAA11'', ''junk'', ''bob:BBBBB22''] =
     [\<lparr>Account = ''alice'', Hash = ''AAAAA11''\<rparr>, \<lparr>Account = ''bob'', Hash = ''BBBBB22''\<rparr>]"
    "list_all (\<lambda>l. TrimSpace l = []) [nbsp]"
    "recordsOf '':'' False 2 [''dave:AAAAA11'' @ nbsp] =
     [\<lparr>Account = ''dave'', Hash = ''AAAAA11''\<rparr>]"
    by code_simp+
  have m: "map fst (map (\<lambda>l. (l, None :: error option)) demoLines) = demoLines"
    by (simp add: comp_def)
  note t1 = loadUsers_header_skip[OF e(1) e(2), of "['''', ''  '']" "''Account:Hash''"
      "[''alice:AAAAA11'', ''junk'', ''bob:BBBBB22'']"]
  note t2 = loadUsers_header_skip[OF e(1) e(2), of "[nbsp]" "''Account:Hash''"
      "[''dave:AAAAA11'' @ nbsp]"]
  have 1: "recordsOf '':'' True 2
     [nbsp, ''Account:Hash'', ''dave:AAAAA11'' @ nbsp] =
     [\<lparr>Account = ''dave'', Hash = ''AAAAA11''\<rparr>]"
    using t2 e(4) e(6) e(7) by simp
  have 2: "TrimSpace nbsp = []"
    using e(6) by simp
  from t1 e m 1 2 show ?thesis by auto
qed

end
